theory Spec2Isabelle
  imports Complex_Main
begin

section \<open>Graph model (shared/schema.ts)\<close>

text \<open>
  The identifier type \<open>'i\<close> is the run-time type of node ids: \<open>string\<close> for the graphs
  the solver is typed for, \<open>string option\<close> where JavaScript's \<open>undefined\<close> can occur
  (the generator reads \<open>labels[i]\<close> without a bound check). Coordinates are reals, edge
  costs are integers; the sums of costs that the solver and its caller form are rounded
  as JavaScript rounds them (section "JavaScript values").
\<close>

datatype node_kind = Router | Source | Destination

record 'i NetworkNode =
  node_id :: 'i
  node_label :: 'i
  node_x :: real
  node_y :: real
  node_type :: node_kind

record 'i NetworkEdge =
  edge_from :: 'i
  edge_to :: 'i
  edge_cost :: int

record 'i Network =
  net_nodes :: "'i NetworkNode list"
  net_edges :: "'i NetworkEdge list"

text \<open>
  A path segment stores what \<open>network.nodes.find\<close> returned for its two endpoints:
  \<open>None\<close> is JavaScript's \<open>undefined\<close>.
\<close>

record PathSegment =
  seg_from :: "string NetworkNode option"
  seg_to :: "string NetworkNode option"
  seg_edge :: "string NetworkEdge"

definition mkNode :: "string \<Rightarrow> real \<Rightarrow> real \<Rightarrow> string NetworkNode" where
  "mkNode l px py = \<lparr>node_id = l, node_label = l, node_x = px, node_y = py, node_type = Router\<rparr>"

definition mkEdge :: "'i \<Rightarrow> 'i \<Rightarrow> int \<Rightarrow> 'i NetworkEdge" where
  "mkEdge a b c = \<lparr>edge_from = a, edge_to = b, edge_cost = c\<rparr>"

definition nodeIds :: "'i Network \<Rightarrow> 'i list" where
  "nodeIds network = map node_id (net_nodes network)"

section \<open>JavaScript values\<close>

text \<open>
  Tentative distances and cost totals are JavaScript numbers, that is IEEE-754 doubles.
  The values that occur are an integer that a double represents, \<open>Infinity\<close>,
  \<open>-Infinity\<close>, and \<open>NaN\<close> (what arithmetic on the \<open>undefined\<close> of a missing map key
  gives; every comparison with it is false).
\<close>

datatype jsnum = Num int | Infinity | NegInfinity | NaN

fun lt :: "jsnum \<Rightarrow> jsnum \<Rightarrow> bool" where
  "lt (Num a) (Num b) = (a < b)"
| "lt (Num a) Infinity = True"
| "lt NegInfinity (Num b) = True"
| "lt NegInfinity Infinity = True"
| "lt _ _ = False"

text \<open>
  A double has a significand of 53 binary digits. Every integer of magnitude below
  \<open>2 ^ 53\<close> is a double; from there on the doubles are the multiples of \<open>spacing\<close>, a power
  of two that doubles with every further binary digit of the magnitude.
\<close>

function spacing :: "int \<Rightarrow> int \<Rightarrow> int" where
  "spacing m u = (if u \<le> 0 \<or> m < 2 ^ 53 * u then u else spacing m (2 * u))"
  by pat_completeness auto
termination
  by (relation "measure (\<lambda>(m, u). nat (m + 1 - 2 ^ 53 * u))") auto

declare spacing.simps [simp del]

text \<open>
  The double that an exact integer result is rounded to: the nearest double, a tie going
  to the one with the even significand, and an infinity from magnitude \<open>2 ^ 1024\<close> on.
\<close>

definition roundDouble :: "int \<Rightarrow> jsnum" where
  "roundDouble n =
     (let m = \<bar>n\<bar>;
          u = spacing m 1;
          q = m div u;
          r = m mod u;
          q' = (if 2 * r < u then q else if u < 2 * r then q + 1 else if even q then q else q + 1);
          v = q' * u
      in if 2 ^ 1024 \<le> v then (if n < 0 then NegInfinity else Infinity)
         else Num (if n < 0 then - v else v))"

text \<open>
  \<open>a + c\<close> for a number \<open>a\<close> and an edge cost \<open>c\<close>: the exact sum of the two doubles,
  rounded once.
\<close>

fun add :: "jsnum \<Rightarrow> int \<Rightarrow> jsnum" where
  "add (Num a) c = roundDouble (a + c)"
| "add Infinity c = Infinity"
| "add NegInfinity c = NegInfinity"
| "add NaN c = NaN"

text \<open>A value of type \<open>string | null\<close>.\<close>

datatype nullable = Null | Str string

text \<open>The one exception these functions can throw.\<close>

datatype js_error = TypeError

text \<open>Reading a property of \<open>undefined\<close> throws.\<close>

definition getField :: "('a \<Rightarrow> 'b) \<Rightarrow> 'a option \<Rightarrow> js_error + 'b" where
  "getField field obj = (case obj of None \<Rightarrow> Inl TypeError | Some v \<Rightarrow> Inr (field v))"

text \<open>\<open>xs[i]\<close>: outside the array the result is \<open>undefined\<close>.\<close>

definition arrayGet :: "'a list \<Rightarrow> int \<Rightarrow> 'a option" where
  "arrayGet xs i = (if 0 \<le> i \<and> i < int (length xs) then Some (xs ! nat i) else None)"

section \<open>Shortest-path solver (simulator.tsx, dijkstra)\<close>

type_synonym dist_map = "string \<rightharpoonup> jsnum"

type_synonym prev_map = "string \<rightharpoonup> nullable"

type_synonym solver_state = "dist_map \<times> prev_map \<times> string list"

definition getDist :: "dist_map \<Rightarrow> string \<Rightarrow> jsnum" where
  "getDist D k = (case D k of None \<Rightarrow> NaN | Some v \<Rightarrow> v)"

text \<open>\<open>Set.add\<close>: a set iterates in insertion order, and adding a member again changes nothing.\<close>

definition set_add :: "string list \<Rightarrow> string \<Rightarrow> string list" where
  "set_add U k = (if k \<in> set U then U else U @ [k])"

definition initNode :: "string \<Rightarrow> string NetworkNode \<Rightarrow> solver_state \<Rightarrow> solver_state" where
  "initNode sourceId node st =
     (case st of (D, P, U) \<Rightarrow>
        (D(node_id node \<mapsto> (if node_id node = sourceId then Num 0 else Infinity)),
         P(node_id node \<mapsto> Null),
         set_add U (node_id node)))"

definition initState :: "string Network \<Rightarrow> string \<Rightarrow> solver_state" where
  "initState network sourceId = fold (initNode sourceId) (net_nodes network) (Map.empty, Map.empty, [])"

text \<open>The linear scan for the unvisited node of least tentative distance.\<close>

definition scanStep :: "dist_map \<Rightarrow> string \<Rightarrow> nullable \<times> jsnum \<Rightarrow> nullable \<times> jsnum" where
  "scanStep D nodeId acc =
     (let dist = getDist D nodeId
      in if lt dist (snd acc) then (Str nodeId, dist) else acc)"

definition findMin :: "dist_map \<Rightarrow> string list \<Rightarrow> nullable \<times> jsnum" where
  "findMin D U = fold (scanStep D) U (Null, Infinity)"

text \<open>\<open>!currentNode\<close>: null and the empty string are falsy.\<close>

fun falsy :: "nullable \<Rightarrow> bool" where
  "falsy Null = True"
| "falsy (Str s) = (s = [])"

text \<open>Relaxing one direction of an edge, and both directions in the order of the source.\<close>

definition relax :: "string \<Rightarrow> string list \<Rightarrow> string \<Rightarrow> int \<Rightarrow> dist_map \<times> prev_map \<Rightarrow> dist_map \<times> prev_map" where
  "relax currentNode U neighbor c DP =
     (if neighbor \<in> set U then
        (let newDist = add (getDist (fst DP) currentNode) c
         in if lt newDist (getDist (fst DP) neighbor)
            then ((fst DP)(neighbor \<mapsto> newDist), (snd DP)(neighbor \<mapsto> Str currentNode))
            else DP)
      else DP)"

definition relaxEdge :: "string \<Rightarrow> string list \<Rightarrow> string NetworkEdge \<Rightarrow> dist_map \<times> prev_map \<Rightarrow> dist_map \<times> prev_map" where
  "relaxEdge currentNode U e DP =
     (let DP1 = (if edge_from e = currentNode then relax currentNode U (edge_to e) (edge_cost e) DP else DP)
      in if edge_to e = currentNode then relax currentNode U (edge_from e) (edge_cost e) DP1 else DP1)"

text \<open>One round on the selected node: remove it from the unvisited set, relax every edge.\<close>

definition visit :: "string Network \<Rightarrow> string \<Rightarrow> solver_state \<Rightarrow> solver_state" where
  "visit network currentNode st =
     (case st of (D, P, U) \<Rightarrow>
        (let U' = removeAll currentNode U;
             DP = fold (relaxEdge currentNode U') (net_edges network) (D, P)
         in (fst DP, snd DP, U')))"

lemma scan_member:
  "fold (scanStep D) U acc = (Str c, m) \<Longrightarrow> c \<in> set U \<or> acc = (Str c, m)"
  by (induction U arbitrary: acc) (auto simp: scanStep_def Let_def split: if_splits)

lemma findMin_member: "findMin D U = (Str c, m) \<Longrightarrow> c \<in> set U"
  using scan_member [of D U "(Null, Infinity)" c m] by (simp add: findMin_def)

text \<open>
  The search loop. Each round removes the selected node from the unvisited set, so the
  loop ends; it also ends when nothing is selected, when the selection is falsy, and
  when the destination is selected.
\<close>

function mainLoop :: "string Network \<Rightarrow> string \<Rightarrow> solver_state \<Rightarrow> solver_state" where
  "mainLoop network destId (D, P, U) =
     (if length U > 0 then
        (case findMin D U of (currentNode, minDistance) \<Rightarrow>
           if falsy currentNode \<or> minDistance = Infinity then (D, P, U)
           else if currentNode = Str destId then (D, P, U)
           else (case currentNode of
                   Null \<Rightarrow> (D, P, U)
                 | Str c \<Rightarrow> mainLoop network destId (visit network c (D, P, U))))
      else (D, P, U))"
  by pat_completeness auto
termination
  apply (relation "measure (\<lambda>(network, destId, D, P, U). length U)")
  apply simp
  apply (simp add: visit_def Let_def)
  apply (metis findMin_member length_removeAll_less)
  done

text \<open>
  Path reconstruction. \<open>current\<close> is a string or \<open>undefined\<close> (\<open>None\<close>): the map
  lookup of a missing key gives \<open>undefined\<close>, which is not \<open>null\<close>, so the loop goes on
  with \<open>current = undefined\<close>. The loop need not terminate; not returning is \<open>None\<close>.
\<close>

definition getPrev :: "prev_map \<Rightarrow> string option \<Rightarrow> nullable option" where
  "getPrev P current = (case current of None \<Rightarrow> None | Some k \<Rightarrow> P k)"

fun asId :: "nullable option \<Rightarrow> string option" where
  "asId (Some (Str s)) = Some s"
| "asId _ = None"

definition joins :: "string option \<Rightarrow> string option \<Rightarrow> string NetworkEdge \<Rightarrow> bool" where
  "joins prev current e =
     ((Some (edge_from e) = prev \<and> Some (edge_to e) = current) \<or>
      (Some (edge_to e) = prev \<and> Some (edge_from e) = current))"

definition findNode :: "string Network \<Rightarrow> string option \<Rightarrow> string NetworkNode option" where
  "findNode network k = find (\<lambda>n. Some (node_id n) = k) (net_nodes network)"

definition unshiftSegment :: "string Network \<Rightarrow> string option \<Rightarrow> string option \<Rightarrow> PathSegment list \<Rightarrow> PathSegment list" where
  "unshiftSegment network prev current path =
     (case find (joins prev current) (net_edges network) of
        Some edge \<Rightarrow>
          \<lparr>seg_from = findNode network prev, seg_to = findNode network current, seg_edge = edge\<rparr> # path
      | None \<Rightarrow> path)"

partial_function (option) reconstruct ::
  "string Network \<Rightarrow> prev_map \<Rightarrow> string option \<Rightarrow> PathSegment list \<Rightarrow> PathSegment list option" where
  "reconstruct network P current path =
     (if getPrev P current \<noteq> Some Null then
        (let prev = asId (getPrev P current)
         in reconstruct network P prev (unshiftSegment network prev current path))
      else Some path)"

declare reconstruct.simps [code]

definition dijkstra :: "string Network \<Rightarrow> string \<Rightarrow> string \<Rightarrow> PathSegment list option" where
  "dijkstra network sourceId destId =
     (case mainLoop network destId (initState network sourceId) of
        (D, P, U) \<Rightarrow> reconstruct network P (Some destId) [])"

text \<open>The caller's sum of the segments' edge costs (\<open>path.reduce\<close> in \<open>handleSendPacket\<close>).\<close>

definition totalCost :: "PathSegment list \<Rightarrow> jsnum" where
  "totalCost path = fold (\<lambda>seg sum. add sum (edge_cost (seg_edge seg))) path (Num 0)"

subsection \<open>The solver as a program on a store\<close>

text \<open>
  To say what a call of \<open>dijkstra\<close> leaves behind, the function is written a second time
  as a program that transforms a store. The store holds the graph object that the
  argument \<open>network\<close> refers to, and the objects that the call allocates: the maps
  \<open>distances\<close> and \<open>previous\<close>, the set \<open>unvisited\<close> and the array \<open>path\<close>. Every
  statement of the source is a transformer of the store, and the graph is read from the
  store at each access. The value that the call returns is the \<open>path\<close> of the final store.
\<close>

record store =
  st_network :: "string Network"
  st_distances :: dist_map
  st_previous :: prev_map
  st_unvisited :: "string list"
  st_path :: "PathSegment list"

text \<open>The body of \<open>network.nodes.forEach\<close>, and the initialisation as a whole (the three \<open>new\<close>, then the loop).\<close>

definition initNodeS :: "string \<Rightarrow> string NetworkNode \<Rightarrow> store \<Rightarrow> store" where
  "initNodeS sourceId node \<sigma> =
     \<sigma>\<lparr>st_distances := (st_distances \<sigma>)(node_id node \<mapsto> (if node_id node = sourceId then Num 0 else Infinity)),
       st_previous := (st_previous \<sigma>)(node_id node \<mapsto> Null),
       st_unvisited := set_add (st_unvisited \<sigma>) (node_id node)\<rparr>"

definition initS :: "string \<Rightarrow> store \<Rightarrow> store" where
  "initS sourceId \<sigma> =
     fold (initNodeS sourceId) (net_nodes (st_network \<sigma>))
       (\<sigma>\<lparr>st_distances := Map.empty, st_previous := Map.empty, st_unvisited := []\<rparr>)"

text \<open>The relaxation of one direction of an edge, of an edge, and one round on the selected node.\<close>

definition relaxS :: "string \<Rightarrow> string \<Rightarrow> int \<Rightarrow> store \<Rightarrow> store" where
  "relaxS currentNode neighbor c \<sigma> =
     (if neighbor \<in> set (st_unvisited \<sigma>) then
        (let newDist = add (getDist (st_distances \<sigma>) currentNode) c
         in if lt newDist (getDist (st_distances \<sigma>) neighbor)
            then \<sigma>\<lparr>st_distances := (st_distances \<sigma>)(neighbor \<mapsto> newDist),
                   st_previous := (st_previous \<sigma>)(neighbor \<mapsto> Str currentNode)\<rparr>
            else \<sigma>)
      else \<sigma>)"

definition relaxEdgeS :: "string \<Rightarrow> string NetworkEdge \<Rightarrow> store \<Rightarrow> store" where
  "relaxEdgeS currentNode e \<sigma> =
     (let \<sigma>1 = (if edge_from e = currentNode then relaxS currentNode (edge_to e) (edge_cost e) \<sigma> else \<sigma>)
      in if edge_to e = currentNode then relaxS currentNode (edge_from e) (edge_cost e) \<sigma>1 else \<sigma>1)"

definition visitS :: "string \<Rightarrow> store \<Rightarrow> store" where
  "visitS currentNode \<sigma> =
     (let \<sigma>1 = \<sigma>\<lparr>st_unvisited := removeAll currentNode (st_unvisited \<sigma>)\<rparr>
      in fold (relaxEdgeS currentNode) (net_edges (st_network \<sigma>1)) \<sigma>1)"

text \<open>
  One pass through the body of \<open>while (unvisited.size > 0)\<close>: \<open>None\<close> when the loop is left
  (by its condition or by a \<open>break\<close>), the store after the pass otherwise.
\<close>

definition roundS :: "string \<Rightarrow> store \<Rightarrow> store option" where
  "roundS destId \<sigma> =
     (if length (st_unvisited \<sigma>) > 0 then
        (case findMin (st_distances \<sigma>) (st_unvisited \<sigma>) of (currentNode, minDistance) \<Rightarrow>
           if falsy currentNode \<or> minDistance = Infinity then None
           else if currentNode = Str destId then None
           else (case currentNode of Null \<Rightarrow> None | Str c \<Rightarrow> Some (visitS c \<sigma>)))
      else None)"

text \<open>The allocated maps and set of a store, as the state of the functional search loop.\<close>

definition locals :: "store \<Rightarrow> solver_state" where
  "locals \<sigma> = (st_distances \<sigma>, st_previous \<sigma>, st_unvisited \<sigma>)"

definition withLocals :: "solver_state \<Rightarrow> store \<Rightarrow> store" where
  "withLocals st \<sigma> =
     (case st of (D, P, U) \<Rightarrow> \<sigma>\<lparr>st_distances := D, st_previous := P, st_unvisited := U\<rparr>)"

lemma withLocals_simps [simp]:
  "st_network (withLocals st \<sigma>) = st_network \<sigma>"
  "st_path (withLocals st \<sigma>) = st_path \<sigma>"
  "locals (withLocals st \<sigma>) = st"
  "withLocals st' (withLocals st \<sigma>) = withLocals st' \<sigma>"
  "withLocals (locals \<sigma>) \<sigma> = \<sigma>"
  by (cases st; cases st'; simp add: withLocals_def locals_def)+

lemma initNodeS_locals:
  "initNodeS s n \<sigma> = withLocals (initNode s n (locals \<sigma>)) \<sigma>"
  by (simp add: initNodeS_def initNode_def withLocals_def locals_def)

lemma fold_initNodeS_locals:
  "fold (initNodeS s) ns \<sigma> = withLocals (fold (initNode s) ns (locals \<sigma>)) \<sigma>"
proof (induction ns arbitrary: \<sigma>)
  case Nil
  then show ?case by simp
next
  case (Cons n ns)
  have "fold (initNodeS s) (n # ns) \<sigma> = fold (initNodeS s) ns (initNodeS s n \<sigma>)" by simp
  also have "\<dots> = withLocals (fold (initNode s) ns (locals (initNodeS s n \<sigma>))) (initNodeS s n \<sigma>)"
    by (rule Cons.IH)
  also have "\<dots> = withLocals (fold (initNode s) ns (initNode s n (locals \<sigma>))) \<sigma>"
    by (simp add: initNodeS_locals [of s n \<sigma>])
  finally show ?case by simp
qed

lemma initS_locals: "initS s \<sigma> = withLocals (initState (st_network \<sigma>) s) \<sigma>"
proof -
  let ?\<sigma>0 = "\<sigma>\<lparr>st_distances := Map.empty, st_previous := Map.empty, st_unvisited := []\<rparr>"
  have "locals ?\<sigma>0 = (Map.empty, Map.empty, [])" by (simp add: locals_def)
  moreover have "withLocals st ?\<sigma>0 = withLocals st \<sigma>" for st
    by (cases st) (simp add: withLocals_def)
  ultimately show ?thesis
    by (simp add: initS_def initState_def fold_initNodeS_locals)
qed

definition tables :: "store \<Rightarrow> dist_map \<times> prev_map" where
  "tables \<sigma> = (st_distances \<sigma>, st_previous \<sigma>)"

definition withTables :: "dist_map \<times> prev_map \<Rightarrow> store \<Rightarrow> store" where
  "withTables DP \<sigma> = \<sigma>\<lparr>st_distances := fst DP, st_previous := snd DP\<rparr>"

lemma withTables_simps [simp]:
  "st_network (withTables DP \<sigma>) = st_network \<sigma>"
  "st_path (withTables DP \<sigma>) = st_path \<sigma>"
  "st_unvisited (withTables DP \<sigma>) = st_unvisited \<sigma>"
  "tables (withTables DP \<sigma>) = DP"
  "withTables DP' (withTables DP \<sigma>) = withTables DP' \<sigma>"
  "withTables (tables \<sigma>) \<sigma> = \<sigma>"
  by (simp_all add: withTables_def tables_def)

lemma relaxS_locals:
  "relaxS c nb w \<sigma> = withTables (relax c (st_unvisited \<sigma>) nb w (tables \<sigma>)) \<sigma>"
  by (simp add: relaxS_def relax_def Let_def withTables_def tables_def)

lemma relaxEdgeS_locals:
  "relaxEdgeS c e \<sigma> = withTables (relaxEdge c (st_unvisited \<sigma>) e (tables \<sigma>)) \<sigma>"
  by (simp add: relaxEdgeS_def relaxEdge_def relaxS_locals Let_def)

lemma fold_relaxEdgeS_locals:
  "fold (relaxEdgeS c) es \<sigma> = withTables (fold (relaxEdge c (st_unvisited \<sigma>)) es (tables \<sigma>)) \<sigma>"
proof (induction es arbitrary: \<sigma>)
  case Nil
  then show ?case by simp
next
  case (Cons e es)
  have "fold (relaxEdgeS c) (e # es) \<sigma> = fold (relaxEdgeS c) es (relaxEdgeS c e \<sigma>)" by simp
  also have "\<dots> = withTables (fold (relaxEdge c (st_unvisited (relaxEdgeS c e \<sigma>))) es
                         (tables (relaxEdgeS c e \<sigma>))) (relaxEdgeS c e \<sigma>)"
    by (rule Cons.IH)
  also have "\<dots> = withTables (fold (relaxEdge c (st_unvisited \<sigma>)) es
                         (relaxEdge c (st_unvisited \<sigma>) e (tables \<sigma>))) \<sigma>"
    by (simp add: relaxEdgeS_locals [of c e \<sigma>])
  finally show ?case by simp
qed

lemma visitS_locals: "visitS c \<sigma> = withLocals (visit (st_network \<sigma>) c (locals \<sigma>)) \<sigma>"
  by (simp add: visitS_def visit_def Let_def fold_relaxEdgeS_locals withLocals_def locals_def
      withTables_def tables_def)

lemma roundS_decreases:
  assumes "roundS destId \<sigma> = Some \<sigma>'"
  shows "length (st_unvisited \<sigma>') < length (st_unvisited \<sigma>)"
proof -
  from assms obtain c m where fm: "findMin (st_distances \<sigma>) (st_unvisited \<sigma>) = (Str c, m)"
    and \<sigma>': "\<sigma>' = visitS c \<sigma>"
    by (auto simp: roundS_def split: if_splits prod.splits nullable.splits)
  have "st_unvisited \<sigma>' = removeAll c (st_unvisited \<sigma>)"
    unfolding \<sigma>' visitS_locals by (simp add: withLocals_def visit_def Let_def locals_def split: prod.splits)
  with findMin_member [OF fm] show ?thesis by (simp add: length_removeAll_less)
qed

text \<open>The search loop, and the stores at the head of the loop in the order of the run.\<close>

function mainLoopS :: "string \<Rightarrow> store \<Rightarrow> store" where
  "mainLoopS destId \<sigma> = (case roundS destId \<sigma> of None \<Rightarrow> \<sigma> | Some \<sigma>' \<Rightarrow> mainLoopS destId \<sigma>')"
  by pat_completeness auto
termination
  by (relation "measure (\<lambda>(destId, \<sigma>). length (st_unvisited \<sigma>))") (auto simp: roundS_decreases)

function rounds :: "string \<Rightarrow> store \<Rightarrow> store list" where
  "rounds destId \<sigma> = \<sigma> # (case roundS destId \<sigma> of None \<Rightarrow> [] | Some \<sigma>' \<Rightarrow> rounds destId \<sigma>')"
  by pat_completeness auto
termination
  by (relation "measure (\<lambda>(destId, \<sigma>). length (st_unvisited \<sigma>))") (auto simp: roundS_decreases)

declare mainLoopS.simps [simp del] rounds.simps [simp del]

text \<open>The reconstruction loop; its last store, if it ends, is the store the call leaves.\<close>

partial_function (option) reconstructS :: "string option \<Rightarrow> store \<Rightarrow> store option" where
  "reconstructS current \<sigma> =
     (if getPrev (st_previous \<sigma>) current \<noteq> Some Null then
        (let prev = asId (getPrev (st_previous \<sigma>) current)
         in reconstructS prev
              (\<sigma>\<lparr>st_path := unshiftSegment (st_network \<sigma>) prev current (st_path \<sigma>)\<rparr>))
      else Some \<sigma>)"

declare reconstructS.simps [code]

definition dijkstraS :: "string \<Rightarrow> string \<Rightarrow> store \<Rightarrow> store option" where
  "dijkstraS sourceId destId \<sigma> =
     reconstructS (Some destId) ((mainLoopS destId (initS sourceId \<sigma>))\<lparr>st_path := []\<rparr>)"

subsection \<open>The default network\<close>

definition getDefaultNetwork :: "string Network" where
  "getDefaultNetwork =
     \<lparr>net_nodes =
        [mkNode ''A'' 150 250, mkNode ''B'' 300 150, mkNode ''C'' 300 350,
         mkNode ''D'' 500 100, mkNode ''E'' 500 300, mkNode ''F'' 700 200],
      net_edges =
        [mkEdge ''A'' ''B'' 7, mkEdge ''A'' ''C'' 9, mkEdge ''B'' ''D'' 10, mkEdge ''B'' ''C'' 10,
         mkEdge ''C'' ''E'' 2, mkEdge ''D'' ''F'' 15, mkEdge ''D'' ''E'' 6, mkEdge ''E'' ''F'' 7]\<rparr>"

section \<open>Topology generator (simulator.tsx, generateRandomNetwork)\<close>

text \<open>
  \<open>Math.random()\<close> is an oracle: \<open>rnd k\<close> is the value of the k-th call, and every
  function threads the number of calls made so far. A generated node's id is
  \<open>labels[i]\<close>, which is \<open>undefined\<close> (\<open>None\<close>) from index 10 on.
\<close>

type_synonym gen_node = "string option NetworkNode"

type_synonym gen_edge = "string option NetworkEdge"

definition labels :: "string list" where
  "labels = [''A'', ''B'', ''C'', ''D'', ''E'', ''F'', ''G'', ''H'', ''I'', ''J'']"

definition minDistance :: real where
  "minDistance = 100"

definition farEnough :: "real \<Rightarrow> real \<Rightarrow> gen_node \<Rightarrow> bool" where
  "farEnough px py node =
     (let dx = node_x node - px; dy = node_y node - py
      in sqrt (dx * dx + dy * dy) \<ge> minDistance)"

text \<open>The rejection-sampling loop for one node: \<open>while (!validPosition && attempts < 100)\<close>.\<close>

function placeLoop ::
  "(nat \<Rightarrow> real) \<Rightarrow> gen_node list \<Rightarrow> nat \<Rightarrow> bool \<Rightarrow> real \<Rightarrow> real \<Rightarrow> nat
     \<Rightarrow> nat \<times> bool \<times> real \<times> real \<times> nat" where
  "placeLoop rnd nodes attempts validPosition px py k =
     (if \<not> validPosition \<and> attempts < 100 then
        (let px' = 100 + rnd k * 700;
             py' = 80 + rnd (k + 1) * 400
         in placeLoop rnd nodes (attempts + 1) (list_all (farEnough px' py') nodes) px' py' (k + 2))
      else (attempts, validPosition, px, py, k))"
  by pat_completeness auto
termination
  by (relation "measure (\<lambda>(rnd, nodes, attempts, validPosition, px, py, k). 100 - attempts)") auto

definition newNode :: "nat \<Rightarrow> real \<Rightarrow> real \<Rightarrow> gen_node" where
  "newNode i px py =
     \<lparr>node_id = arrayGet labels (int i), node_label = arrayGet labels (int i),
      node_x = px, node_y = py, node_type = Router\<rparr>"

function placeNodes ::
  "(nat \<Rightarrow> real) \<Rightarrow> nat \<Rightarrow> nat \<Rightarrow> gen_node list \<Rightarrow> nat \<Rightarrow> gen_node list \<times> nat" where
  "placeNodes rnd nodeCount i nodes k =
     (if i < nodeCount then
        (case placeLoop rnd nodes 0 False 0 0 k of
           (attempts, validPosition, px, py, k') \<Rightarrow>
             placeNodes rnd nodeCount (i + 1) (nodes @ [newNode i px py]) k')
      else (nodes, k))"
  by pat_completeness auto
termination
  by (relation "measure (\<lambda>(rnd, nodeCount, i, nodes, k). nodeCount - i)") auto

definition randomCost :: "real \<Rightarrow> int" where
  "randomCost r = \<lfloor>r * 15\<rfloor> + 5"

text \<open>The spanning tree: node i is joined to node \<open>floor (random * i)\<close>.\<close>

function spanningTree ::
  "(nat \<Rightarrow> real) \<Rightarrow> gen_node list \<Rightarrow> nat \<Rightarrow> gen_edge list \<Rightarrow> nat
     \<Rightarrow> js_error + gen_edge list \<times> nat" where
  "spanningTree rnd nodes i edges k =
     (if i < length nodes then
        (let j = \<lfloor>rnd k * real i\<rfloor>
         in case (getField node_id (arrayGet nodes (int i)), getField node_id (arrayGet nodes j)) of
              (Inr a, Inr b) \<Rightarrow>
                spanningTree rnd nodes (i + 1) (edges @ [mkEdge a b (randomCost (rnd (k + 1)))]) (k + 2)
            | _ \<Rightarrow> Inl TypeError)
      else Inr (edges, k))"
  by pat_completeness auto
termination
  by (relation "measure (\<lambda>(rnd, nodes, i, edges, k). length nodes - i)") auto

definition edgeExists :: "gen_edge list \<Rightarrow> string option \<Rightarrow> string option \<Rightarrow> bool" where
  "edgeExists edges a b =
     list_ex (\<lambda>e. (edge_from e = a \<and> edge_to e = b) \<or> (edge_to e = a \<and> edge_from e = b)) edges"

text \<open>The additional edges: a self-loop or an existing pair is skipped, with no retry.\<close>

function extraEdges ::
  "(nat \<Rightarrow> real) \<Rightarrow> gen_node list \<Rightarrow> int \<Rightarrow> nat \<Rightarrow> gen_edge list \<Rightarrow> nat
     \<Rightarrow> js_error + gen_edge list \<times> nat" where
  "extraEdges rnd nodes additionalEdges i edges k =
     (if int i < additionalEdges then
        (let fromNode = arrayGet nodes \<lfloor>rnd k * real (length nodes)\<rfloor>;
             toNode = arrayGet nodes \<lfloor>rnd (k + 1) * real (length nodes)\<rfloor>
         in case (getField node_id fromNode, getField node_id toNode) of
              (Inr a, Inr b) \<Rightarrow>
                if a \<noteq> b then
                  (if \<not> edgeExists edges a b
                   then extraEdges rnd nodes additionalEdges (i + 1)
                          (edges @ [mkEdge a b (randomCost (rnd (k + 2)))]) (k + 3)
                   else extraEdges rnd nodes additionalEdges (i + 1) edges (k + 2))
                else extraEdges rnd nodes additionalEdges (i + 1) edges (k + 2)
            | _ \<Rightarrow> Inl TypeError)
      else Inr (edges, k))"
  by pat_completeness auto
termination
  by (relation "measure (\<lambda>(rnd, nodes, additionalEdges, i, edges, k). nat (additionalEdges - int i))") auto

definition generateRandomNetwork :: "(nat \<Rightarrow> real) \<Rightarrow> nat \<Rightarrow> js_error + string option Network" where
  "generateRandomNetwork rnd nodeCount =
     (case placeNodes rnd nodeCount 0 [] 0 of
        (nodes, k1) \<Rightarrow>
          (case spanningTree rnd nodes 1 [] k1 of
             Inl err \<Rightarrow> Inl err
           | Inr (edges1, k2) \<Rightarrow>
               (let additionalEdges = \<lfloor>rnd k2 * 3\<rfloor> + 2
                in case extraEdges rnd nodes additionalEdges 0 edges1 (k2 + 1) of
                     Inl err \<Rightarrow> Inl err
                   | Inr (edges2, k3) \<Rightarrow> Inr \<lparr>net_nodes = nodes, net_edges = edges2\<rparr>)))"

section \<open>Packet animation (simulator.tsx, renderNetwork and animatePacket)\<close>


text \<open>
  The animation clock. \<open>Date.now()\<close> is an integer number of milliseconds; a run is
  driven by the readings of the clock at the successive frame callbacks. The effects of a
  run are recorded in order: a call of \<open>renderNetwork\<close> with its progress value, a call of
  \<open>requestAnimationFrame\<close>, and the completing \<open>setState\<close>. Of the simulation state the
  two flags are modelled (the message text is not).
\<close>

datatype effect = Render real | RequestFrame | Complete

record AnimationState =
  animationRef :: bool
  isAnimating :: bool
  isComplete :: bool
  effects :: "effect list"

definition duration :: int where
  "duration = 2500"

definition progressAt :: "int \<Rightarrow> int \<Rightarrow> real" where
  "progressAt startTime now = min (real_of_int (now - startTime) / real_of_int duration) 1"

definition animate :: "int \<Rightarrow> int \<Rightarrow> AnimationState \<Rightarrow> AnimationState" where
  "animate startTime now st =
     (let progress = progressAt startTime now;
          st1 = st\<lparr>effects := effects st @ [Render progress]\<rparr>
      in if progress < 1
         then st1\<lparr>animationRef := True, effects := effects st1 @ [RequestFrame]\<rparr>
         else st1\<lparr>animationRef := False, isAnimating := False, isComplete := True,
                  effects := effects st1 @ [Complete]\<rparr>)"

text \<open>A frame callback runs only while a frame request is pending.\<close>

fun runFrames :: "int \<Rightarrow> int list \<Rightarrow> AnimationState \<Rightarrow> AnimationState" where
  "runFrames startTime [] st = st"
| "runFrames startTime (now # later) st =
     (if animationRef st then runFrames startTime later (animate startTime now st) else st)"

definition animatePacket :: "int \<Rightarrow> int list \<Rightarrow> AnimationState \<Rightarrow> AnimationState" where
  "animatePacket startTime readings st =
     runFrames startTime readings (st\<lparr>animationRef := True, effects := effects st @ [RequestFrame]\<rparr>)"

section \<open>The solver on the default network\<close>

text \<open>
  C2. On the default six-node network, \<open>dijkstra\<close> from A to F returns exactly the three
  segments A-C, C-E, E-F (each with the resolved endpoint nodes and the graph's edge), and
  the caller's sum of their edge costs is 18.
\<close>

theorem C2_default_network_A_to_F:
  "dijkstra getDefaultNetwork ''A'' ''F'' = Some
     [\<lparr>seg_from = Some (mkNode ''A'' 150 250), seg_to = Some (mkNode ''C'' 300 350),
        seg_edge = mkEdge ''A'' ''C'' 9\<rparr>,
      \<lparr>seg_from = Some (mkNode ''C'' 300 350), seg_to = Some (mkNode ''E'' 500 300),
        seg_edge = mkEdge ''C'' ''E'' 2\<rparr>,
      \<lparr>seg_from = Some (mkNode ''E'' 500 300), seg_to = Some (mkNode ''F'' 700 200),
        seg_edge = mkEdge ''E'' ''F'' 7\<rparr>]
   \<and> map_option totalCost (dijkstra getDefaultNetwork ''A'' ''F'') = Some (Num 18)"
  by code_simp

section \<open>The initial state of the search\<close>

lemma initNode_apply:
  "initNode s n (D, P, U) =
     (D(node_id n \<mapsto> (if node_id n = s then Num 0 else Infinity)), P(node_id n \<mapsto> Null),
      set_add U (node_id n))"
  by (simp add: initNode_def)

lemma fold_initNode:
  "fold (initNode s) ns (D, P, U) = (D', P', U') \<Longrightarrow>
     (\<forall>k. D' k = (if k \<in> node_id ` set ns then Some (if k = s then Num 0 else Infinity) else D k)) \<and>
     (\<forall>k. P' k = (if k \<in> node_id ` set ns then Some Null else P k)) \<and>
     set U' = set U \<union> node_id ` set ns \<and> (distinct U \<longrightarrow> distinct U')"
proof (induction ns arbitrary: D P U)
  case Nil
  then show ?case by simp
next
  case (Cons n ns)
  from Cons.prems have
    "fold (initNode s) ns
       (D(node_id n \<mapsto> (if node_id n = s then Num 0 else Infinity)), P(node_id n \<mapsto> Null),
        set_add U (node_id n)) = (D', P', U')"
    by (simp only: fold_simps comp_apply initNode_apply)
  from Cons.IH [OF this] show ?case
    by (auto simp: set_add_def)
qed

lemma initState_props:
  assumes "initState g s = (D, P, U)"
  shows "D k = (if k \<in> set (nodeIds g) then Some (if k = s then Num 0 else Infinity) else None)"
    and "P k = (if k \<in> set (nodeIds g) then Some Null else None)"
    and "set U = set (nodeIds g)" and "distinct U"
  using fold_initNode [OF assms [unfolded initState_def]]
  by (simp_all add: nodeIds_def)

lemma scan_initial:
  assumes "\<forall>k \<in> set U. getDist D k = (if k = s then Num 0 else Infinity)"
    and "acc = (Null, Infinity) \<or> acc = (Str s, Num 0)"
  shows "fold (scanStep D) U acc = (if s \<in> set U then (Str s, Num 0) else acc)"
  using assms
  by (induction U arbitrary: acc) (auto simp: scanStep_def Let_def)

lemma findMin_initial:
  assumes "initState g s = (D, P, U)" and "s \<in> set (nodeIds g)"
  shows "findMin D U = (Str s, Num 0)"
proof -
  have "\<forall>k \<in> set U. getDist D k = (if k = s then Num 0 else Infinity)"
    using initState_props [OF assms(1)] by (simp add: getDist_def)
  from scan_initial [OF this, of "(Null, Infinity)"] initState_props(3) [OF assms(1)] assms(2)
  show ?thesis by (simp add: findMin_def)
qed

lemma mainLoop_same_node:
  assumes "initState g s = (D, P, U)" and "s \<in> set (nodeIds g)"
  shows "mainLoop g s (D, P, U) = (D, P, U)"
  using findMin_initial [OF assms] by (simp add: mainLoop.simps [of g s D P U])

text \<open>
  C7. For every graph and every node id X of the graph, \<open>dijkstra\<close> from X to X returns
  (the search loop stops at its first selection, the reconstruction loop at once) and the
  result is the empty sequence.
\<close>

theorem C7_same_source_and_destination:
  assumes "X \<in> set (nodeIds network)"
  shows "dijkstra network X X = Some []"
proof -
  obtain D P U where st: "initState network X = (D, P, U)"
    by (cases "initState network X") auto
  have "P X = Some Null" using initState_props(2) [OF st] assms by simp
  then have "reconstruct network P (Some X) [] = Some []"
    by (simp add: reconstruct.simps [of network P "Some X"] getPrev_def)
  with st mainLoop_same_node [OF st assms] show ?thesis
    by (simp add: dijkstra_def)
qed

theorem C7_witness:
  "''C'' \<in> set (nodeIds getDefaultNetwork) \<and> dijkstra getDefaultNetwork ''C'' ''C'' = Some []"
proof -
  have h: "''C'' \<in> set (nodeIds getDefaultNetwork)"
    by (simp add: nodeIds_def getDefaultNetwork_def mkNode_def)
  show ?thesis using h C7_same_source_and_destination [OF h] by simp
qed

section \<open>Determinism, selection order and edge choice\<close>

lemma lt_trans: "lt a b \<Longrightarrow> lt b c \<Longrightarrow> lt a c"
  by (cases a; cases b; cases c) auto

lemma lt_irrefl: "\<not> lt a a"
  by (cases a) auto

lemma lt_below: "lt a b \<Longrightarrow> lt a Infinity"
  by (cases a; cases b) auto

lemma scan_characterisation:
  "(fold (scanStep D) U acc = acc \<and> (\<forall>j<length U. \<not> lt (getDist D (U ! j)) (snd acc))) \<or>
   (\<exists>i<length U. fold (scanStep D) U acc = (Str (U ! i), getDist D (U ! i)) \<and>
        lt (getDist D (U ! i)) (snd acc) \<and>
        (\<forall>j<length U. \<not> lt (getDist D (U ! j)) (getDist D (U ! i))) \<and>
        (\<forall>j<i. getDist D (U ! j) \<noteq> getDist D (U ! i)))"
proof (induction U rule: rev_induct)
  case Nil
  then show ?case by simp
next
  case (snoc x U)
  let ?r = "fold (scanStep D) U acc"
  have step: "fold (scanStep D) (U @ [x]) acc =
      (if lt (getDist D x) (snd ?r) then (Str x, getDist D x) else ?r)"
    by (simp add: scanStep_def Let_def)
  have nth_old: "\<And>j. j < length U \<Longrightarrow> (U @ [x]) ! j = U ! j"
    by (simp add: nth_append)
  have nth_new: "(U @ [x]) ! length U = x" by simp
  from snoc.IH show ?case
  proof (elim disjE conjE exE)
    assume same: "?r = acc" and none: "\<forall>j<length U. \<not> lt (getDist D (U ! j)) (snd acc)"
    show ?thesis
    proof (cases "lt (getDist D x) (snd acc)")
      case True
      have a: "\<forall>j<length (U @ [x]). \<not> lt (getDist D ((U @ [x]) ! j)) (getDist D x)"
      proof (intro allI impI)
        fix j assume "j < length (U @ [x])"
        then consider "j < length U" | "j = length U" by force
        then show "\<not> lt (getDist D ((U @ [x]) ! j)) (getDist D x)"
        proof cases
          case 1
          with none True lt_trans show ?thesis by (auto simp: nth_append)
        next
          case 2
          then show ?thesis by (simp add: lt_irrefl)
        qed
      qed
      have b: "\<forall>j<length U. getDist D ((U @ [x]) ! j) \<noteq> getDist D x"
        using none True by (auto simp: nth_append)
      have "length U < length (U @ [x]) \<and>
            fold (scanStep D) (U @ [x]) acc = (Str ((U @ [x]) ! length U), getDist D ((U @ [x]) ! length U)) \<and>
            lt (getDist D ((U @ [x]) ! length U)) (snd acc) \<and>
            (\<forall>j<length (U @ [x]). \<not> lt (getDist D ((U @ [x]) ! j)) (getDist D ((U @ [x]) ! length U))) \<and>
            (\<forall>j<length U. getDist D ((U @ [x]) ! j) \<noteq> getDist D ((U @ [x]) ! length U))"
        using step same True a b by (simp only: nth_new) simp
      then show ?thesis by blast
    next
      case False
      with step same none have
        "fold (scanStep D) (U @ [x]) acc = acc \<and>
         (\<forall>j<length (U @ [x]). \<not> lt (getDist D ((U @ [x]) ! j)) (snd acc))"
        by (auto simp: nth_append less_Suc_eq)
      then show ?thesis by blast
    qed
  next
    fix i
    assume i: "i < length U" and r: "?r = (Str (U ! i), getDist D (U ! i))"
      and below: "lt (getDist D (U ! i)) (snd acc)"
      and least: "\<forall>j<length U. \<not> lt (getDist D (U ! j)) (getDist D (U ! i))"
      and first: "\<forall>j<i. getDist D (U ! j) \<noteq> getDist D (U ! i)"
    show ?thesis
    proof (cases "lt (getDist D x) (getDist D (U ! i))")
      case True
      have a: "\<forall>j<length (U @ [x]). \<not> lt (getDist D ((U @ [x]) ! j)) (getDist D x)"
      proof (intro allI impI)
        fix j assume "j < length (U @ [x])"
        then consider "j < length U" | "j = length U" by force
        then show "\<not> lt (getDist D ((U @ [x]) ! j)) (getDist D x)"
        proof cases
          case 1
          with least True lt_trans show ?thesis by (auto simp: nth_append)
        next
          case 2
          then show ?thesis by (simp add: lt_irrefl)
        qed
      qed
      have b: "\<forall>j<length U. getDist D ((U @ [x]) ! j) \<noteq> getDist D x"
        using least True by (auto simp: nth_append)
      have "length U < length (U @ [x]) \<and>
            fold (scanStep D) (U @ [x]) acc = (Str ((U @ [x]) ! length U), getDist D ((U @ [x]) ! length U)) \<and>
            lt (getDist D ((U @ [x]) ! length U)) (snd acc) \<and>
            (\<forall>j<length (U @ [x]). \<not> lt (getDist D ((U @ [x]) ! j)) (getDist D ((U @ [x]) ! length U))) \<and>
            (\<forall>j<length U. getDist D ((U @ [x]) ! j) \<noteq> getDist D ((U @ [x]) ! length U))"
        using step r True a b lt_trans [OF True below] by (simp only: nth_new) simp
      then show ?thesis by blast
    next
      case False
      have "i < length (U @ [x]) \<and>
            fold (scanStep D) (U @ [x]) acc = (Str ((U @ [x]) ! i), getDist D ((U @ [x]) ! i)) \<and>
            lt (getDist D ((U @ [x]) ! i)) (snd acc) \<and>
            (\<forall>j<length (U @ [x]). \<not> lt (getDist D ((U @ [x]) ! j)) (getDist D ((U @ [x]) ! i))) \<and>
            (\<forall>j<i. getDist D ((U @ [x]) ! j) \<noteq> getDist D ((U @ [x]) ! i))"
        using step r False i below least first by (auto simp: nth_append less_Suc_eq)
      then show ?thesis by blast
    qed
  qed
qed

lemma findMin_first_least:
  assumes "findMin D U = (Str c, m)"
  shows "\<exists>i<length U. U ! i = c \<and> getDist D c = m \<and>
           (\<forall>j<length U. \<not> lt (getDist D (U ! j)) m) \<and> (\<forall>j<i. getDist D (U ! j) \<noteq> m)"
  using scan_characterisation [of D U "(Null, Infinity)"] assms
  by (auto simp: findMin_def)

lemma findMin_Null:
  assumes "findMin D U = (Null, m)"
  shows "m = Infinity \<and> (\<forall>k \<in> set U. \<not> lt (getDist D k) Infinity)"
  using scan_characterisation [of D U "(Null, Infinity)"] assms
  by (auto simp: findMin_def in_set_conv_nth)

lemma findMin_below:
  assumes "findMin D U = (Str c, m)"
  shows "lt m Infinity"
  using scan_characterisation [of D U "(Null, Infinity)"] assms
  by (auto simp: findMin_def)

lemma findMin_none_finite:
  assumes "\<forall>k \<in> set U. \<not> lt (getDist D k) Infinity"
  shows "findMin D U = (Null, Infinity)"
  using scan_characterisation [of D U "(Null, Infinity)"] assms
  by (auto simp: findMin_def)

text \<open>
  A segment uses the first matching edge: its endpoints are the nodes found for two ids,
  and its edge is the first edge, in the graph's edge order, that joins the two ids in
  either direction.
\<close>

definition usesFirstEdge :: "string Network \<Rightarrow> PathSegment \<Rightarrow> bool" where
  "usesFirstEdge network seg =
     (\<exists>u v. seg_from seg = findNode network (Some u) \<and> seg_to seg = findNode network (Some v) \<and>
        (\<exists>i<length (net_edges network). net_edges network ! i = seg_edge seg \<and>
           joins (Some u) (Some v) (seg_edge seg) \<and>
           (\<forall>j<i. \<not> joins (Some u) (Some v) (net_edges network ! j))))"

lemma unshiftSegment_first_edge:
  assumes "seg \<in> set (unshiftSegment network prev current path)"
  shows "seg \<in> set path \<or> usesFirstEdge network seg"
proof (cases "find (joins prev current) (net_edges network)")
  case None
  with assms show ?thesis by (simp add: unshiftSegment_def)
next
  case (Some e)
  then obtain i where i: "i < length (net_edges network)" "joins prev current (net_edges network ! i)"
      "e = net_edges network ! i" "\<forall>j<i. \<not> joins prev current (net_edges network ! j)"
    by (auto simp: find_Some_iff)
  from i(2) obtain u v where uv: "prev = Some u" "current = Some v"
    by (auto simp: joins_def)
  show ?thesis
  proof (cases "seg \<in> set path")
    case True
    then show ?thesis by simp
  next
    case False
    with assms Some have "seg = \<lparr>seg_from = findNode network prev, seg_to = findNode network current, seg_edge = e\<rparr>"
      by (simp add: unshiftSegment_def)
    with i uv have "usesFirstEdge network seg"
      unfolding usesFirstEdge_def by auto
    then show ?thesis by simp
  qed
qed

lemma reconstruct_first_edge:
  assumes "reconstruct network P current path = Some y"
  shows "\<forall>seg \<in> set y. seg \<in> set path \<or> usesFirstEdge network seg"
proof -
  have "(\<lambda>(((n, P), c), p) y. \<forall>seg \<in> set y. seg \<in> set p \<or> usesFirstEdge n seg)
          (((network, P), current), path) y"
  proof (rule reconstruct.raw_induct [OF _ assms], goal_cases)
    case (1 rec n P c p y)
    show ?case
    proof (cases "getPrev P c \<noteq> Some Null")
      case True
      with 1(2) have "rec n P (asId (getPrev P c)) (unshiftSegment n (asId (getPrev P c)) c p) = Some y"
        by (simp add: Let_def)
      from 1(1) [OF this] unshiftSegment_first_edge [of _ n "asId (getPrev P c)" c p]
      show ?thesis by auto
    next
      case False
      with 1(2) show ?thesis by auto
    qed
  qed
  then show ?thesis by simp
qed

text \<open>The store program computes what the functional \<open>dijkstra\<close> computes, and writes only what it allocated.\<close>

lemma roundS_locals:
  "roundS t \<sigma> =
     (if st_unvisited \<sigma> \<noteq> [] then
        (case findMin (st_distances \<sigma>) (st_unvisited \<sigma>) of (cur, m) \<Rightarrow>
           if falsy cur \<or> m = Infinity \<or> cur = Str t then None
           else (case cur of Null \<Rightarrow> None
                 | Str c \<Rightarrow> Some (withLocals (visit (st_network \<sigma>) c (locals \<sigma>)) \<sigma>)))
      else None)"
  by (simp add: roundS_def visitS_locals split: prod.splits nullable.splits)

lemma mainLoopS_locals:
  "mainLoopS t \<sigma> = withLocals (mainLoop (st_network \<sigma>) t (locals \<sigma>)) \<sigma>"
proof (induction t \<sigma> rule: mainLoopS.induct)
  case (1 t \<sigma>)
  obtain cur m where fm: "findMin (st_distances \<sigma>) (st_unvisited \<sigma>) = (cur, m)"
    by (cases "findMin (st_distances \<sigma>) (st_unvisited \<sigma>)") auto
  have ml: "mainLoop (st_network \<sigma>) t (locals \<sigma>) =
      mainLoop (st_network \<sigma>) t (st_distances \<sigma>, st_previous \<sigma>, st_unvisited \<sigma>)"
    by (simp add: locals_def)
  show ?case
  proof (cases "roundS t \<sigma>")
    case None
    then have "mainLoop (st_network \<sigma>) t (locals \<sigma>) = locals \<sigma>"
      unfolding ml mainLoop.simps [of "st_network \<sigma>" t] roundS_locals
      by (auto simp: fm locals_def split: if_splits nullable.splits)
    with None show ?thesis by (simp add: mainLoopS.simps [of t \<sigma>])
  next
    case (Some \<sigma>')
    then obtain c where c: "cur = Str c" "st_unvisited \<sigma> \<noteq> []" "\<not> falsy cur" "m \<noteq> Infinity" "cur \<noteq> Str t"
        "\<sigma>' = withLocals (visit (st_network \<sigma>) c (locals \<sigma>)) \<sigma>"
      unfolding roundS_locals by (auto simp: fm split: if_splits nullable.splits)
    have "mainLoop (st_network \<sigma>) t (locals \<sigma>) =
        mainLoop (st_network \<sigma>) t (visit (st_network \<sigma>) c (locals \<sigma>))"
      unfolding ml mainLoop.simps [of "st_network \<sigma>" t "st_distances \<sigma>"] using c fm
      by (simp add: locals_def)
    with "1.IH" [OF Some] c(6) Some show ?thesis
      by (simp add: mainLoopS.simps [of t \<sigma>])
  qed
qed

lemma rounds_network:
  "\<rho> \<in> set (rounds t \<sigma>) \<Longrightarrow> st_network \<rho> = st_network \<sigma>"
proof (induction t \<sigma> rule: rounds.induct)
  case (1 t \<sigma>)
  show ?case
  proof (cases "roundS t \<sigma>")
    case None
    with "1.prems" show ?thesis by (simp add: rounds.simps [of t \<sigma>])
  next
    case (Some \<sigma>')
    then have n: "st_network \<sigma>' = st_network \<sigma>"
      unfolding roundS_locals by (auto split: if_splits prod.splits nullable.splits)
    from "1.prems" Some have "\<rho> = \<sigma> \<or> \<rho> \<in> set (rounds t \<sigma>')"
      by (simp add: rounds.simps [of t \<sigma>])
    with "1.IH" [OF Some] n show ?thesis by auto
  qed
qed

lemma mainLoopS_last: "mainLoopS t \<sigma> = last (rounds t \<sigma>)"
proof (induction t \<sigma> rule: rounds.induct)
  case (1 t \<sigma>)
  show ?case
  proof (cases "roundS t \<sigma>")
    case None
    then show ?thesis by (simp add: rounds.simps [of t \<sigma>] mainLoopS.simps [of t \<sigma>])
  next
    case (Some \<sigma>')
    have "rounds t \<sigma>' \<noteq> []" by (simp add: rounds.simps [of t \<sigma>'])
    with "1.IH" [OF Some] Some show ?thesis
      by (simp add: rounds.simps [of t \<sigma>] mainLoopS.simps [of t \<sigma>])
  qed
qed

lemma reconstructS_sound:
  assumes "reconstructS current \<sigma> = Some \<sigma>'"
  shows "reconstruct (st_network \<sigma>) (st_previous \<sigma>) current (st_path \<sigma>) = Some (st_path \<sigma>') \<and>
         \<sigma>' = \<sigma>\<lparr>st_path := st_path \<sigma>'\<rparr>"
proof -
  have "(\<lambda>(c, \<sigma>) \<sigma>'. reconstruct (st_network \<sigma>) (st_previous \<sigma>) c (st_path \<sigma>) = Some (st_path \<sigma>') \<and>
         \<sigma>' = \<sigma>\<lparr>st_path := st_path \<sigma>'\<rparr>) (current, \<sigma>) \<sigma>'"
  proof (rule reconstructS.raw_induct [OF _ assms], goal_cases)
    case (1 rec c \<sigma> y)
    show ?case
    proof (cases "getPrev (st_previous \<sigma>) c \<noteq> Some Null")
      case True
      let ?prev = "asId (getPrev (st_previous \<sigma>) c)"
      let ?\<sigma>2 = "\<sigma>\<lparr>st_path := unshiftSegment (st_network \<sigma>) ?prev c (st_path \<sigma>)\<rparr>"
      from True 1(2) have "rec ?prev ?\<sigma>2 = Some y" by (simp add: Let_def)
      from 1(1) [OF this] have "reconstruct (st_network \<sigma>) (st_previous \<sigma>) ?prev
            (unshiftSegment (st_network \<sigma>) ?prev c (st_path \<sigma>)) = Some (st_path y)"
        and "y = \<sigma>\<lparr>st_path := st_path y\<rparr>" by simp_all
      with True show ?thesis
        by (simp add: reconstruct.simps [of "st_network \<sigma>" "st_previous \<sigma>" c] Let_def)
    next
      case False
      then have "reconstruct (st_network \<sigma>) (st_previous \<sigma>) c (st_path \<sigma>) = Some (st_path \<sigma>)"
        by (simp add: reconstruct.simps [of "st_network \<sigma>" "st_previous \<sigma>" c])
      moreover from False 1(2) have "y = \<sigma>" by simp
      ultimately show ?thesis by simp
    qed
  qed
  then show ?thesis by simp
qed

lemma reconstructS_complete:
  assumes "reconstruct network P current path = Some y"
  shows "st_network \<sigma> = network \<Longrightarrow> st_previous \<sigma> = P \<Longrightarrow> st_path \<sigma> = path \<Longrightarrow>
         reconstructS current \<sigma> = Some (\<sigma>\<lparr>st_path := y\<rparr>)"
proof -
  have "(\<lambda>(((n, P), c), p) y. \<forall>\<sigma>. st_network \<sigma> = n \<and> st_previous \<sigma> = P \<and> st_path \<sigma> = p \<longrightarrow>
          reconstructS c \<sigma> = Some (\<sigma>\<lparr>st_path := y\<rparr>)) (((network, P), current), path) y"
  proof (rule reconstruct.raw_induct [OF _ assms], goal_cases)
    case (1 rec n P c p y)
    show ?case
      unfolding prod.case
    proof (intro allI impI, elim conjE)
      fix \<sigma> :: store
      assume s: "st_network \<sigma> = n" "st_previous \<sigma> = P" "st_path \<sigma> = p"
      show "reconstructS c \<sigma> = Some (\<sigma>\<lparr>st_path := y\<rparr>)"
      proof (cases "getPrev P c \<noteq> Some Null")
        case True
        let ?prev = "asId (getPrev P c)"
        from True 1(2) have "rec n P ?prev (unshiftSegment n ?prev c p) = Some y"
          by (simp add: Let_def)
        from 1(1) [OF this]
        have "\<forall>\<sigma>'. st_network \<sigma>' = n \<and> st_previous \<sigma>' = P \<and>
                 st_path \<sigma>' = unshiftSegment n ?prev c p \<longrightarrow>
                 reconstructS ?prev \<sigma>' = Some (\<sigma>'\<lparr>st_path := y\<rparr>)"
          by simp
        from this [rule_format, of "\<sigma>\<lparr>st_path := unshiftSegment n ?prev c p\<rparr>"] s
        have "reconstructS ?prev (\<sigma>\<lparr>st_path := unshiftSegment n ?prev c p\<rparr>) = Some (\<sigma>\<lparr>st_path := y\<rparr>)"
          by simp
        with True s show ?thesis by (simp add: reconstructS.simps [of c \<sigma>] Let_def)
      next
        case False
        with 1(2) s show ?thesis by (auto simp: reconstructS.simps [of c \<sigma>])
      qed
    qed
  qed
  then show "st_network \<sigma> = network \<Longrightarrow> st_previous \<sigma> = P \<Longrightarrow> st_path \<sigma> = path \<Longrightarrow>
         reconstructS current \<sigma> = Some (\<sigma>\<lparr>st_path := y\<rparr>)" by simp
qed

lemma reconstructS_locals:
  "reconstructS current \<sigma> =
     map_option (\<lambda>p. \<sigma>\<lparr>st_path := p\<rparr>)
       (reconstruct (st_network \<sigma>) (st_previous \<sigma>) current (st_path \<sigma>))"
proof (cases "reconstruct (st_network \<sigma>) (st_previous \<sigma>) current (st_path \<sigma>)")
  case None
  with reconstructS_sound [of current \<sigma>] show ?thesis
    by (cases "reconstructS current \<sigma>") auto
next
  case (Some y)
  from reconstructS_complete [OF this] Some show ?thesis by simp
qed

lemma dijkstraS_locals:
  "dijkstraS s t \<sigma> =
     map_option (\<lambda>p. (withLocals (mainLoop (st_network \<sigma>) t (initState (st_network \<sigma>) s)) \<sigma>)\<lparr>st_path := p\<rparr>)
       (dijkstra (st_network \<sigma>) s t)"
proof -
  obtain D P U where ml: "mainLoop (st_network \<sigma>) t (initState (st_network \<sigma>) s) = (D, P, U)"
    by (cases "mainLoop (st_network \<sigma>) t (initState (st_network \<sigma>) s)") auto
  have "mainLoopS t (initS s \<sigma>) = withLocals (D, P, U) \<sigma>"
    by (simp add: mainLoopS_locals initS_locals ml)
  then show ?thesis
    by (simp add: dijkstraS_def dijkstra_def ml reconstructS_locals withLocals_def)
qed

lemma dijkstraS_path:
  "map_option st_path (dijkstraS s t \<sigma>) = dijkstra (st_network \<sigma>) s t"
  by (simp add: dijkstraS_locals option.map_comp comp_def option.map_ident)


lemma dijkstra_first_edge:
  assumes "dijkstra network sourceId destId = Some path"
  shows "\<forall>seg \<in> set path. usesFirstEdge network seg"
proof -
  obtain D P U where "mainLoop network destId (initState network sourceId) = (D, P, U)"
    by (cases "mainLoop network destId (initState network sourceId)") auto
  with assms have "reconstruct network P (Some destId) [] = Some path"
    by (simp add: dijkstra_def)
  from reconstruct_first_edge [OF this] show ?thesis by simp
qed

text \<open>
  C10. \<open>dijkstra\<close> is deterministic and pure. Run as a program on a store, it returns
  the sequence that the function \<open>dijkstra\<close> gives for the graph in the store and the two
  ids, whatever else the store holds. So two invocations with the same ids, in any two
  stores that hold the same graph, return the same sequence (or both do not return).
  When the call returns, the graph in the store is the graph it started with, and every
  segment of the result carries the first edge, in the graph's edge order, that joins its
  two ends. The search loop ends in the last of the stores \<open>rounds\<close> lists; in every
  round the graph is still that graph, and the scan selects a node of least tentative
  distance and, of the unvisited nodes with that distance, the one that stands first in
  the insertion order.
\<close>

theorem C10_deterministic_and_pure:
  "map_option st_path (dijkstraS sourceId destId \<sigma>) = dijkstra (st_network \<sigma>) sourceId destId \<and>
   (st_network \<sigma>' = st_network \<sigma> \<longrightarrow>
      map_option st_path (dijkstraS sourceId destId \<sigma>') =
      map_option st_path (dijkstraS sourceId destId \<sigma>)) \<and>
   (\<forall>\<tau>. dijkstraS sourceId destId \<sigma> = Some \<tau> \<longrightarrow>
      st_network \<tau> = st_network \<sigma> \<and>
      (\<forall>seg \<in> set (st_path \<tau>). usesFirstEdge (st_network \<sigma>) seg)) \<and>
   mainLoopS destId (initS sourceId \<sigma>) = last (rounds destId (initS sourceId \<sigma>)) \<and>
   (\<forall>\<rho> \<in> set (rounds destId (initS sourceId \<sigma>)).
      st_network \<rho> = st_network \<sigma> \<and>
      (\<forall>c m. findMin (st_distances \<rho>) (st_unvisited \<rho>) = (Str c, m) \<longrightarrow>
         (\<exists>i<length (st_unvisited \<rho>). st_unvisited \<rho> ! i = c \<and> getDist (st_distances \<rho>) c = m \<and>
            (\<forall>j<length (st_unvisited \<rho>). \<not> lt (getDist (st_distances \<rho>) (st_unvisited \<rho> ! j)) m) \<and>
            (\<forall>j<i. getDist (st_distances \<rho>) (st_unvisited \<rho> ! j) \<noteq> m))))"
proof (intro conjI impI allI ballI)
  show "map_option st_path (dijkstraS sourceId destId \<sigma>) = dijkstra (st_network \<sigma>) sourceId destId"
    by (rule dijkstraS_path)
next
  assume "st_network \<sigma>' = st_network \<sigma>"
  then show "map_option st_path (dijkstraS sourceId destId \<sigma>') =
             map_option st_path (dijkstraS sourceId destId \<sigma>)"
    by (simp add: dijkstraS_path)
next
  fix \<tau> assume "dijkstraS sourceId destId \<sigma> = Some \<tau>"
  then show "st_network \<tau> = st_network \<sigma>"
    by (auto simp: dijkstraS_locals)
next
  fix \<tau> seg assume run: "dijkstraS sourceId destId \<sigma> = Some \<tau>" and seg: "seg \<in> set (st_path \<tau>)"
  from run dijkstraS_path [of sourceId destId \<sigma>]
  have "dijkstra (st_network \<sigma>) sourceId destId = Some (st_path \<tau>)" by simp
  from dijkstra_first_edge [OF this] seg show "usesFirstEdge (st_network \<sigma>) seg" by simp
next
  show "mainLoopS destId (initS sourceId \<sigma>) = last (rounds destId (initS sourceId \<sigma>))"
    by (rule mainLoopS_last)
next
  fix \<rho> assume "\<rho> \<in> set (rounds destId (initS sourceId \<sigma>))"
  from rounds_network [OF this] show "st_network \<rho> = st_network \<sigma>"
    by (simp add: initS_locals)
next
  fix \<rho> c m
  assume "findMin (st_distances \<rho>) (st_unvisited \<rho>) = (Str c, m)"
  then show "\<exists>i<length (st_unvisited \<rho>). st_unvisited \<rho> ! i = c \<and> getDist (st_distances \<rho>) c = m \<and>
            (\<forall>j<length (st_unvisited \<rho>). \<not> lt (getDist (st_distances \<rho>) (st_unvisited \<rho> ! j)) m) \<and>
            (\<forall>j<i. getDist (st_distances \<rho>) (st_unvisited \<rho> ! j) \<noteq> m)"
    by (rule findMin_first_least)
qed

text \<open>
  A run with a tie: from A the nodes B and C both get distance 3, and the second round
  selects B, inserted before C. The hop from A to C carries the edge A-C, which stands
  before the edge C-A. \<open>usedStore\<close> holds the same graph and what an earlier call left.
\<close>

definition tieNetwork :: "string Network" where
  "tieNetwork =
     \<lparr>net_nodes = [mkNode ''A'' 100 100, mkNode ''B'' 300 100, mkNode ''C'' 300 300],
      net_edges = [mkEdge ''A'' ''B'' 3, mkEdge ''A'' ''C'' 3, mkEdge ''C'' ''A'' 3]\<rparr>"

definition freshStore :: store where
  "freshStore =
     \<lparr>st_network = tieNetwork, st_distances = Map.empty, st_previous = Map.empty,
      st_unvisited = [], st_path = []\<rparr>"

definition usedStore :: store where
  "usedStore =
     \<lparr>st_network = tieNetwork, st_distances = [''A'' \<mapsto> Num 4, ''C'' \<mapsto> Num 1],
      st_previous = [''A'' \<mapsto> Str ''C''], st_unvisited = [''C'', ''Z''],
      st_path = [\<lparr>seg_from = None, seg_to = None, seg_edge = mkEdge ''C'' ''A'' 3\<rparr>]\<rparr>"

lemma tie_A_C:
  "dijkstra tieNetwork ''A'' ''C'' =
     Some [\<lparr>seg_from = Some (mkNode ''A'' 100 100), seg_to = Some (mkNode ''C'' 300 300),
             seg_edge = mkEdge ''A'' ''C'' 3\<rparr>]"
  by code_simp

lemma tie_second_round:
  "length (rounds ''C'' (initS ''A'' freshStore)) = 3 \<and>
   st_unvisited (rounds ''C'' (initS ''A'' freshStore) ! 1) = [''B'', ''C''] \<and>
   getDist (st_distances (rounds ''C'' (initS ''A'' freshStore) ! 1)) ''B'' = Num 3 \<and>
   getDist (st_distances (rounds ''C'' (initS ''A'' freshStore) ! 1)) ''C'' = Num 3"
  by code_simp

theorem C10_witness:
  "st_network usedStore = st_network freshStore \<and>
   map_option st_path (dijkstraS ''A'' ''C'' usedStore) =
     Some [\<lparr>seg_from = Some (mkNode ''A'' 100 100), seg_to = Some (mkNode ''C'' 300 300),
             seg_edge = mkEdge ''A'' ''C'' 3\<rparr>] \<and>
   map_option st_path (dijkstraS ''A'' ''C'' freshStore) =
     Some [\<lparr>seg_from = Some (mkNode ''A'' 100 100), seg_to = Some (mkNode ''C'' 300 300),
             seg_edge = mkEdge ''A'' ''C'' 3\<rparr>] \<and>
   (\<exists>\<tau>. dijkstraS ''A'' ''C'' freshStore = Some \<tau> \<and> st_network \<tau> = tieNetwork \<and>
      usesFirstEdge tieNetwork
        \<lparr>seg_from = Some (mkNode ''A'' 100 100), seg_to = Some (mkNode ''C'' 300 300),
           seg_edge = mkEdge ''A'' ''C'' 3\<rparr>) \<and>
   (\<exists>\<rho>. \<rho> \<in> set (rounds ''C'' (initS ''A'' freshStore)) \<and> st_network \<rho> = tieNetwork \<and>
      st_unvisited \<rho> = [''B'', ''C''] \<and>
      getDist (st_distances \<rho>) ''B'' = Num 3 \<and> getDist (st_distances \<rho>) ''C'' = Num 3 \<and>
      findMin (st_distances \<rho>) (st_unvisited \<rho>) = (Str ''B'', Num 3) \<and>
      (\<exists>i<length (st_unvisited \<rho>). st_unvisited \<rho> ! i = ''B'' \<and>
         (\<forall>j<i. getDist (st_distances \<rho>) (st_unvisited \<rho> ! j) \<noteq> Num 3)))"
proof -
  let ?seg = "\<lparr>seg_from = Some (mkNode ''A'' 100 100), seg_to = Some (mkNode ''C'' 300 300),
                seg_edge = mkEdge ''A'' ''C'' 3\<rparr>"
  let ?\<rho> = "rounds ''C'' (initS ''A'' freshStore) ! 1"
  note t = C10_deterministic_and_pure [of "''A''" "''C''" freshStore usedStore]
  have n: "st_network usedStore = st_network freshStore" "st_network freshStore = tieNetwork"
    by (simp_all add: usedStore_def freshStore_def)
  from t n tie_A_C have p: "map_option st_path (dijkstraS ''A'' ''C'' freshStore) = Some [?seg]"
    "map_option st_path (dijkstraS ''A'' ''C'' usedStore) = Some [?seg]"
    by simp_all
  from p(1) obtain \<tau> where \<tau>: "dijkstraS ''A'' ''C'' freshStore = Some \<tau>" "st_path \<tau> = [?seg]"
    by auto
  from t \<tau> n have a: "st_network \<tau> = tieNetwork" "usesFirstEdge tieNetwork ?seg"
    by simp_all
  from tie_second_round have \<rho>: "?\<rho> \<in> set (rounds ''C'' (initS ''A'' freshStore))"
    by (intro nth_mem) simp
  have fm: "findMin (st_distances ?\<rho>) (st_unvisited ?\<rho>) = (Str ''B'', Num 3)"
    using tie_second_round by (simp add: findMin_def scanStep_def)
  from t \<rho> n have g: "st_network ?\<rho> = tieNetwork" by simp
  from t \<rho> fm have "\<exists>i<length (st_unvisited ?\<rho>). st_unvisited ?\<rho> ! i = ''B'' \<and>
         getDist (st_distances ?\<rho>) ''B'' = Num 3 \<and>
         (\<forall>j<length (st_unvisited ?\<rho>). \<not> lt (getDist (st_distances ?\<rho>) (st_unvisited ?\<rho> ! j)) (Num 3)) \<and>
         (\<forall>j<i. getDist (st_distances ?\<rho>) (st_unvisited ?\<rho> ! j) \<noteq> Num 3)"
    by blast
  then have first: "\<exists>i<length (st_unvisited ?\<rho>). st_unvisited ?\<rho> ! i = ''B'' \<and>
         (\<forall>j<i. getDist (st_distances ?\<rho>) (st_unvisited ?\<rho> ! j) \<noteq> Num 3)"
    by blast
  have r: "\<exists>\<rho>. \<rho> \<in> set (rounds ''C'' (initS ''A'' freshStore)) \<and> st_network \<rho> = tieNetwork \<and>
      st_unvisited \<rho> = [''B'', ''C''] \<and>
      getDist (st_distances \<rho>) ''B'' = Num 3 \<and> getDist (st_distances \<rho>) ''C'' = Num 3 \<and>
      findMin (st_distances \<rho>) (st_unvisited \<rho>) = (Str ''B'', Num 3) \<and>
      (\<exists>i<length (st_unvisited \<rho>). st_unvisited \<rho> ! i = ''B'' \<and>
         (\<forall>j<i. getDist (st_distances \<rho>) (st_unvisited \<rho> ! j) \<noteq> Num 3))"
    using \<rho> g fm first tie_second_round by (intro exI [of _ ?\<rho>]) simp
  from n p \<tau>(1) a r show ?thesis by blast
qed

section \<open>Invariants of the search loop\<close>

lemma mainLoop_invariant:
  assumes "I st"
    and "\<And>D P U c m. I (D, P, U) \<Longrightarrow> findMin D U = (Str c, m) \<Longrightarrow> c \<noteq> [] \<Longrightarrow>
           m \<noteq> Infinity \<Longrightarrow> c \<noteq> destId \<Longrightarrow> I (visit network c (D, P, U))"
  shows "I (mainLoop network destId st)"
  using assms
proof (induction network destId st rule: mainLoop.induct)
  case (1 network destId D P U)
  obtain cur m where fm: "findMin D U = (cur, m)" by (cases "findMin D U") auto
  show ?case
  proof (cases "U \<noteq> [] \<and> \<not> (falsy cur \<or> m = Infinity) \<and> cur \<noteq> Str destId")
    case True
    then obtain c where c: "cur = Str c" by (cases cur) auto
    have "I (visit network c (D, P, U))"
      using "1.prems"(2) [OF "1.prems"(1), of c m] fm c True by simp
    from "1.IH" [OF _ fm [symmetric] _ _ c this "1.prems"(2)] True
    have "I (mainLoop network destId (visit network c (D, P, U)))" by simp
    with fm c True show ?thesis
      by (simp add: mainLoop.simps [of network destId D P U])
  next
    case False
    with fm "1.prems"(1) show ?thesis
      by (cases cur) (auto simp: mainLoop.simps [of network destId D P U])
  qed
qed

lemma mainLoop_final:
  "mainLoop network destId st = (D, P, U) \<Longrightarrow>
     U = [] \<or> (\<exists>cur m. findMin D U = (cur, m) \<and> (falsy cur \<or> m = Infinity \<or> cur = Str destId))"
proof (induction network destId st rule: mainLoop.induct)
  case (1 network destId D0 P0 U0)
  obtain cur m where fm: "findMin D0 U0 = (cur, m)" by (cases "findMin D0 U0") auto
  show ?case
  proof (cases "U0 \<noteq> [] \<and> \<not> (falsy cur \<or> m = Infinity) \<and> cur \<noteq> Str destId")
    case True
    then obtain c where c: "cur = Str c" by (cases cur) auto
    from "1.prems" fm c True have "mainLoop network destId (visit network c (D0, P0, U0)) = (D, P, U)"
      by (simp add: mainLoop.simps [of network destId D0 P0 U0])
    from "1.IH" [OF _ fm [symmetric] _ _ c this] True show ?thesis by simp
  next
    case False
    with fm have "mainLoop network destId (D0, P0, U0) = (D0, P0, U0)"
      by (cases cur) (auto simp: mainLoop.simps [of network destId D0 P0 U0])
    with "1.prems" have "(D0, P0, U0) = (D, P, U)" by simp
    with False fm show ?thesis by auto
  qed
qed

text \<open>Relaxation writes only at unvisited nodes.\<close>

lemma relax_frame:
  assumes "relax c U nb w (D, P) = (D', P')" and "k \<notin> set U"
  shows "D' k = D k" and "P' k = P k"
  using assms by (auto simp: relax_def Let_def split: if_splits)

lemma relaxEdge_frame:
  assumes "relaxEdge c U e (D, P) = (D', P')" and "k \<notin> set U"
  shows "D' k = D k \<and> P' k = P k"
proof -
  obtain D1 P1 where 1: "(if edge_from e = c then relax c U (edge_to e) (edge_cost e) (D, P) else (D, P)) = (D1, P1)"
    by (cases "(if edge_from e = c then relax c U (edge_to e) (edge_cost e) (D, P) else (D, P))") auto
  have a: "D1 k = D k \<and> P1 k = P k"
    using 1 relax_frame [of c U "edge_to e" "edge_cost e" D P D1 P1 k] assms(2)
    by (auto split: if_splits)
  have 2: "(if edge_to e = c then relax c U (edge_from e) (edge_cost e) (D1, P1) else (D1, P1)) = (D', P')"
    using assms(1) 1 by (simp add: relaxEdge_def Let_def)
  have "D' k = D1 k \<and> P' k = P1 k"
    using 2 relax_frame [of c U "edge_from e" "edge_cost e" D1 P1 D' P' k] assms(2)
    by (auto split: if_splits)
  with a show ?thesis by simp
qed

lemma fold_relaxEdge_frame:
  assumes "fold (relaxEdge c U) es (D, P) = (D', P')" and "k \<notin> set U"
  shows "D' k = D k \<and> P' k = P k"
  using assms
proof (induction es arbitrary: D P)
  case Nil
  then show ?case by simp
next
  case (Cons e es)
  obtain D1 P1 where 1: "relaxEdge c U e (D, P) = (D1, P1)"
    by (cases "relaxEdge c U e (D, P)") auto
  with Cons.prems have "fold (relaxEdge c U) es (D1, P1) = (D', P')" by simp
  from Cons.IH [OF this Cons.prems(2)] relaxEdge_frame [OF 1 Cons.prems(2)]
  show ?case by simp
qed

lemma visit_frame:
  assumes "visit network c (D, P, U) = (D', P', U')" and "k \<notin> set U"
  shows "D' k = D k \<and> P' k = P k"
proof -
  obtain D1 P1 where 1: "fold (relaxEdge c (removeAll c U)) (net_edges network) (D, P) = (D1, P1)"
    by (cases "fold (relaxEdge c (removeAll c U)) (net_edges network) (D, P)") auto
  with assms(1) have "D' = D1" "P' = P1" by (simp_all add: visit_def Let_def)
  with fold_relaxEdge_frame [OF 1, of k] assms(2) show ?thesis by simp
qed

lemma visit_unvisited:
  "visit network c (D, P, U) = (D', P', U') \<Longrightarrow> U' = removeAll c U"
  by (simp add: visit_def Let_def)

lemma mainLoop_frame:
  assumes "mainLoop network destId (D, P, U) = (D', P', U')" and "k \<notin> set U"
  shows "D' k = D k \<and> P' k = P k \<and> k \<notin> set U'"
proof -
  have "(\<lambda>(D1, P1, U1). D1 k = D k \<and> P1 k = P k \<and> k \<notin> set U1) (mainLoop network destId (D, P, U))"
  proof (rule mainLoop_invariant)
    show "(\<lambda>(D1, P1, U1). D1 k = D k \<and> P1 k = P k \<and> k \<notin> set U1) (D, P, U)"
      using assms(2) by simp
  next
    fix D1 P1 U1 c m
    assume a: "(\<lambda>(D1, P1, U1). D1 k = D k \<and> P1 k = P k \<and> k \<notin> set U1) (D1, P1, U1)"
    obtain D2 P2 U2 where v: "visit network c (D1, P1, U1) = (D2, P2, U2)"
      by (cases "visit network c (D1, P1, U1)") auto
    from a have "k \<notin> set U1" by simp
    from visit_frame [OF v this] visit_unvisited [OF v] a
    show "(\<lambda>(D1, P1, U1). D1 k = D k \<and> P1 k = P k \<and> k \<notin> set U1) (visit network c (D1, P1, U1))"
      by (simp add: v)
  qed
  with assms(1) show ?thesis by simp
qed

lemma getDist_upd: "getDist (D(k \<mapsto> x)) k' = (if k' = k then x else getDist D k')"
  by (simp add: getDist_def)

lemma relax_effect:
  assumes "getDist D1 c = dc" and "relax c U nb w (D1, P1) = (D2, P2)"
  shows "getDist D2 x =
           (if x = nb \<and> nb \<in> set U \<and> lt (add dc w) (getDist D1 nb) then add dc w
            else getDist D1 x)"
    and "P2 x =
           (if x = nb \<and> nb \<in> set U \<and> lt (add dc w) (getDist D1 nb) then Some (Str c)
            else P1 x)"
  using assms by (auto simp: relax_def Let_def getDist_upd split: if_splits)

lemma relaxEdge_effect:
  assumes c: "getDist D1 c = dc" and nc: "c \<notin> set U"
    and r: "relaxEdge c U e (D1, P1) = (D2, P2)"
  shows "getDist D2 x =
           (if x \<in> set U \<and> joins (Some c) (Some x) e \<and> lt (add dc (edge_cost e)) (getDist D1 x)
            then add dc (edge_cost e) else getDist D1 x)"
    and "P2 x =
           (if x \<in> set U \<and> joins (Some c) (Some x) e \<and> lt (add dc (edge_cost e)) (getDist D1 x)
            then Some (Str c) else P1 x)"
proof -
  obtain Da Pa where a: "(if edge_from e = c then relax c U (edge_to e) (edge_cost e) (D1, P1) else (D1, P1)) = (Da, Pa)"
    by (cases "(if edge_from e = c then relax c U (edge_to e) (edge_cost e) (D1, P1) else (D1, P1))") auto
  with r have b: "(if edge_to e = c then relax c U (edge_from e) (edge_cost e) (Da, Pa) else (Da, Pa)) = (D2, P2)"
    by (simp add: relaxEdge_def Let_def)
  have first: "getDist Da k =
           (if edge_from e = c \<and> k = edge_to e \<and> k \<in> set U \<and> lt (add dc (edge_cost e)) (getDist D1 k)
            then add dc (edge_cost e) else getDist D1 k)"
     "Pa k =
           (if edge_from e = c \<and> k = edge_to e \<and> k \<in> set U \<and> lt (add dc (edge_cost e)) (getDist D1 k)
            then Some (Str c) else P1 k)" for k
  proof -
    show "getDist Da k =
           (if edge_from e = c \<and> k = edge_to e \<and> k \<in> set U \<and> lt (add dc (edge_cost e)) (getDist D1 k)
            then add dc (edge_cost e) else getDist D1 k)"
    proof (cases "edge_from e = c")
      case True
      with a have "relax c U (edge_to e) (edge_cost e) (D1, P1) = (Da, Pa)" by simp
      from relax_effect(1) [OF c this, of k] True show ?thesis by auto
    next
      case False
      with a show ?thesis by simp
    qed
    show "Pa k =
           (if edge_from e = c \<and> k = edge_to e \<and> k \<in> set U \<and> lt (add dc (edge_cost e)) (getDist D1 k)
            then Some (Str c) else P1 k)"
    proof (cases "edge_from e = c")
      case True
      with a have "relax c U (edge_to e) (edge_cost e) (D1, P1) = (Da, Pa)" by simp
      from relax_effect(2) [OF c this, of k] True show ?thesis by auto
    next
      case False
      with a show ?thesis by simp
    qed
  qed
  from first(1) [of c] nc c have ca: "getDist Da c = dc" by simp
  have second: "getDist D2 k =
           (if edge_to e = c \<and> k = edge_from e \<and> k \<in> set U \<and> lt (add dc (edge_cost e)) (getDist Da k)
            then add dc (edge_cost e) else getDist Da k)"
     "P2 k =
           (if edge_to e = c \<and> k = edge_from e \<and> k \<in> set U \<and> lt (add dc (edge_cost e)) (getDist Da k)
            then Some (Str c) else Pa k)" for k
  proof -
    show "getDist D2 k =
           (if edge_to e = c \<and> k = edge_from e \<and> k \<in> set U \<and> lt (add dc (edge_cost e)) (getDist Da k)
            then add dc (edge_cost e) else getDist Da k)"
    proof (cases "edge_to e = c")
      case True
      with b have "relax c U (edge_from e) (edge_cost e) (Da, Pa) = (D2, P2)" by simp
      from relax_effect(1) [OF ca this, of k] True show ?thesis by auto
    next
      case False
      with b show ?thesis by simp
    qed
    show "P2 k =
           (if edge_to e = c \<and> k = edge_from e \<and> k \<in> set U \<and> lt (add dc (edge_cost e)) (getDist Da k)
            then Some (Str c) else Pa k)"
    proof (cases "edge_to e = c")
      case True
      with b have "relax c U (edge_from e) (edge_cost e) (Da, Pa) = (D2, P2)" by simp
      from relax_effect(2) [OF ca this, of k] True show ?thesis by auto
    next
      case False
      with b show ?thesis by simp
    qed
  qed
  have j: "joins (Some c) (Some x) e \<longleftrightarrow>
      (edge_from e = c \<and> x = edge_to e) \<or> (edge_to e = c \<and> x = edge_from e)"
    by (auto simp: joins_def)
  show "getDist D2 x =
           (if x \<in> set U \<and> joins (Some c) (Some x) e \<and> lt (add dc (edge_cost e)) (getDist D1 x)
            then add dc (edge_cost e) else getDist D1 x)"
    unfolding second(1) [of x] first(1) [of x] j using nc by (auto simp: lt_irrefl)
  show "P2 x =
           (if x \<in> set U \<and> joins (Some c) (Some x) e \<and> lt (add dc (edge_cost e)) (getDist D1 x)
            then Some (Str c) else P1 x)"
    unfolding second(2) [of x] first [of x] j using nc by (auto simp: lt_irrefl)
qed

lemma fold_relaxEdge_effect:
  assumes c: "getDist D c = dc" and nc: "c \<notin> set U"
  shows "fold (relaxEdge c U) es (D, P) = (D', P') \<Longrightarrow>
    (\<forall>x. (getDist D' x = getDist D x \<and> P' x = P x) \<or>
          (x \<in> set U \<and> (\<exists>e \<in> set es. joins (Some c) (Some x) e \<and>
             getDist D' x = add dc (edge_cost e) \<and> P' x = Some (Str c) \<and>
             lt (add dc (edge_cost e)) (getDist D x)))) \<and>
    (\<forall>x \<in> set U. \<forall>e \<in> set es. joins (Some c) (Some x) e \<longrightarrow>
          \<not> lt (add dc (edge_cost e)) (getDist D' x))"
proof (induction es arbitrary: D' P' rule: rev_induct)
  case Nil
  then show ?case by simp
next
  case (snoc e0 es)
  obtain Di Pi where i: "fold (relaxEdge c U) es (D, P) = (Di, Pi)"
    by (cases "fold (relaxEdge c U) es (D, P)") auto
  with snoc.prems have r: "relaxEdge c U e0 (Di, Pi) = (D', P')" by simp
  from snoc.IH [OF i] have ih1: "\<And>x. (getDist Di x = getDist D x \<and> Pi x = P x) \<or>
          (x \<in> set U \<and> (\<exists>e \<in> set es. joins (Some c) (Some x) e \<and>
             getDist Di x = add dc (edge_cost e) \<and> Pi x = Some (Str c) \<and>
             lt (add dc (edge_cost e)) (getDist D x)))"
    and ih2: "\<And>x e. x \<in> set U \<Longrightarrow> e \<in> set es \<Longrightarrow> joins (Some c) (Some x) e \<Longrightarrow>
          \<not> lt (add dc (edge_cost e)) (getDist Di x)"
    by blast+
  from ih1 [of c] nc c have ci: "getDist Di c = dc" by auto
  note eff = relaxEdge_effect [OF ci nc r]
  have one: "(getDist D' x = getDist D x \<and> P' x = P x) \<or>
          (x \<in> set U \<and> (\<exists>e \<in> set (es @ [e0]). joins (Some c) (Some x) e \<and>
             getDist D' x = add dc (edge_cost e) \<and> P' x = Some (Str c) \<and>
             lt (add dc (edge_cost e)) (getDist D x)))" for x
  proof (cases "x \<in> set U \<and> joins (Some c) (Some x) e0 \<and> lt (add dc (edge_cost e0)) (getDist Di x)")
    case True
    with eff [of x] have new: "getDist D' x = add dc (edge_cost e0)" "P' x = Some (Str c)" by simp_all
    from True ih1 [of x] have "lt (add dc (edge_cost e0)) (getDist D x)"
      by (auto intro: lt_trans)
    with True new show ?thesis by auto
  next
    case False
    with eff [of x] have "getDist D' x = getDist Di x" "P' x = Pi x" by simp_all
    with ih1 [of x] show ?thesis by auto
  qed
  have two: "\<not> lt (add dc (edge_cost e)) (getDist D' x)"
    if x: "x \<in> set U" and e: "e \<in> set (es @ [e0])" and j: "joins (Some c) (Some x) e" for x e
  proof (cases "joins (Some c) (Some x) e0 \<and> lt (add dc (edge_cost e0)) (getDist Di x)")
    case True
    with eff(1) [of x] x have new: "getDist D' x = add dc (edge_cost e0)" by simp
    show ?thesis
    proof (cases "e = e0")
      case True
      with new show ?thesis by (simp add: lt_irrefl)
    next
      case False
      with e have "e \<in> set es" by simp
      from ih2 [OF x this j] have n: "\<not> lt (add dc (edge_cost e)) (getDist Di x)" .
      show ?thesis
      proof
        assume "lt (add dc (edge_cost e)) (getDist D' x)"
        with new have "lt (add dc (edge_cost e)) (add dc (edge_cost e0))" by simp
        from lt_trans [OF this] True have "lt (add dc (edge_cost e)) (getDist Di x)" by simp
        with n show False by simp
      qed
    qed
  next
    case False
    with eff(1) [of x] have same: "getDist D' x = getDist Di x" by simp
    show ?thesis
    proof (cases "e = e0")
      case True
      with False j same show ?thesis by simp
    next
      case False
      with e have "e \<in> set es" by simp
      from ih2 [OF x this j] same show ?thesis by simp
    qed
  qed
  from one two show ?case by blast
qed

section \<open>Walks\<close>

text \<open>A walk from u to v: a sequence of edges of the graph, each traversed in either direction.\<close>

fun walk :: "string Network \<Rightarrow> string \<Rightarrow> string NetworkEdge list \<Rightarrow> string \<Rightarrow> bool" where
  "walk network u [] v = (u = v)"
| "walk network u (e # es) v =
     (e \<in> set (net_edges network) \<and>
      ((edge_from e = u \<and> walk network (edge_to e) es v) \<or>
       (edge_to e = u \<and> walk network (edge_from e) es v)))"

definition walkCost :: "string NetworkEdge list \<Rightarrow> int" where
  "walkCost es = sum_list (map edge_cost es)"

lemma walk_append:
  "walk network u es w \<Longrightarrow> walk network w es' v \<Longrightarrow> walk network u (es @ es') v"
  by (induction es arbitrary: u) auto

lemma walk_single:
  "e \<in> set (net_edges network) \<Longrightarrow> joins (Some u) (Some v) e \<Longrightarrow> walk network u [e] v"
  by (auto simp: joins_def)

lemma walkCost_nonneg:
  assumes "\<And>e. e \<in> set (net_edges network) \<Longrightarrow> 0 \<le> edge_cost e"
  shows "walk network u es v \<Longrightarrow> 0 \<le> walkCost es"
proof (induction es arbitrary: u)
  case Nil
  then show ?case by (simp add: walkCost_def)
next
  case (Cons e es)
  from Cons.prems have e: "e \<in> set (net_edges network)"
    and "walk network (edge_to e) es v \<or> walk network (edge_from e) es v" by auto
  with Cons.IH have "0 \<le> walkCost es" by blast
  with assms [OF e] show ?case by (simp add: walkCost_def)
qed

text \<open>Below \<open>2 ^ 53\<close> a sum is a double: nothing is rounded.\<close>

lemma roundDouble_exact:
  assumes "\<bar>n\<bar> < 2 ^ 53"
  shows "roundDouble n = Num n"
proof -
  from assms have u: "spacing \<bar>n\<bar> 1 = 1" by (subst spacing.simps) simp
  have "(2::int) ^ 53 \<le> 2 ^ 1024" by (rule power_increasing) simp_all
  with assms have big: "\<not> 2 ^ 1024 \<le> \<bar>n\<bar>" by (simp only: not_le)
  have "(if n < 0 then - \<bar>n\<bar> else \<bar>n\<bar>) = n" by simp
  with big show ?thesis
    unfolding roundDouble_def Let_def u
    by (simp only: div_by_1 mod_by_1 mult_zero_right mult_1_right if_True if_False) simp
qed

lemma add_exact: "0 \<le> a + c \<Longrightarrow> a + c < 2 ^ 53 \<Longrightarrow> add (Num a) c = Num (a + c)"
  by (simp add: roundDouble_exact)

lemma totalCost_snoc:
  "totalCost (segs @ [seg]) = add (totalCost segs) (edge_cost (seg_edge seg))"
  by (simp add: totalCost_def)

lemma walkCost_snoc: "walkCost (es @ [e]) = walkCost es + edge_cost e"
  by (simp add: walkCost_def)

lemma joins_sym: "joins a b e \<longleftrightarrow> joins b a e"
  by (auto simp: joins_def)

lemma joins_ends:
  "joins (Some u) (Some w) e \<longleftrightarrow> (edge_from e = u \<and> edge_to e = w) \<or> (edge_to e = u \<and> edge_from e = w)"
  by (auto simp: joins_def)

lemma findNode_Some:
  assumes "v \<in> set (nodeIds network)"
  shows "\<exists>n. findNode network (Some v) = Some n \<and> node_id n = v \<and> n \<in> set (net_nodes network)"
proof -
  from assms have "find (\<lambda>n. Some (node_id n) = Some v) (net_nodes network) \<noteq> None"
    by (auto simp: find_None_iff nodeIds_def)
  then obtain n where "find (\<lambda>n. Some (node_id n) = Some v) (net_nodes network) = Some n" by auto
  then show ?thesis by (auto simp: findNode_def find_Some_iff)
qed

section \<open>When the search finds no route\<close>

lemma reconstruct_defined_start:
  assumes "reconstruct network P current path = Some y"
  shows "current \<noteq> None"
proof -
  have "(\<lambda>(((n, P), c), p) y. c \<noteq> None) (((network, P), current), path) y"
  proof (rule reconstruct.raw_induct [OF _ assms], goal_cases)
    case (1 rec n P c p y)
    show ?case
    proof (cases c)
      case None
      with 1(2) have "rec n P None (unshiftSegment n None None p) = Some y"
        by (simp add: getPrev_def)
      from 1(1) [OF this] show ?thesis by simp
    next
      case (Some k)
      then show ?thesis by simp
    qed
  qed
  then show ?thesis by simp
qed

lemma reconstruct_undefined:
  "reconstruct network P None path = None"
  using reconstruct_defined_start [of network P None path] by (cases "reconstruct network P None path") auto

lemma reconstruct_missing_key:
  assumes "P k = None"
  shows "reconstruct network P (Some k) path = None"
  using assms reconstruct_undefined
  by (simp add: reconstruct.simps [of network P "Some k"] getPrev_def)

lemma dijkstra_absent_destination:
  assumes "destId \<notin> set (nodeIds network)"
  shows "dijkstra network sourceId destId = None"
proof -
  obtain D P U where st: "initState network sourceId = (D, P, U)"
    by (cases "initState network sourceId") auto
  obtain D' P' U' where ml: "mainLoop network destId (D, P, U) = (D', P', U')"
    by (cases "mainLoop network destId (D, P, U)") auto
  have "P destId = None" "destId \<notin> set U"
    using initState_props [OF st] assms by simp_all
  with mainLoop_frame [OF ml, of destId] have "P' destId = None" by simp
  from reconstruct_missing_key [of P' destId network "[]", OF this] st ml show ?thesis
    by (simp add: dijkstra_def)
qed

text \<open>Every tentative distance below \<open>Infinity\<close> belongs to a node that a walk from the source reaches.\<close>

definition reachInv :: "string Network \<Rightarrow> string \<Rightarrow> solver_state \<Rightarrow> bool" where
  "reachInv network s st =
     (case st of (D, P, U) \<Rightarrow>
        (\<forall>v. lt (getDist D v) Infinity \<longrightarrow> (\<exists>es. walk network s es v)) \<and>
        (\<forall>v \<in> set (nodeIds network). P v = Some Null \<or> lt (getDist D v) Infinity))"

lemma reachInv_init: "reachInv network s (initState network s)"
proof -
  obtain D P U where st: "initState network s = (D, P, U)"
    by (cases "initState network s") auto
  note p = initState_props [OF st]
  have "\<exists>es. walk network s es v" if "lt (getDist D v) Infinity" for v
  proof -
    from that p(1) [of v] have "v = s" by (auto simp: getDist_def split: if_splits)
    then have "walk network s [] v" by simp
    then show ?thesis ..
  qed
  moreover have "\<forall>v \<in> set (nodeIds network). P v = Some Null" using p(2) by simp
  ultimately show ?thesis unfolding st reachInv_def prod.case by blast
qed

lemma reachInv_visit:
  assumes inv: "reachInv network s (D, P, U)" and fm: "findMin D U = (Str c, m)"
  shows "reachInv network s (visit network c (D, P, U))"
proof -
  note inv0 = inv [unfolded reachInv_def prod.case]
  have R1: "\<And>v. lt (getDist D v) Infinity \<Longrightarrow> \<exists>es. walk network s es v"
    using inv0 [THEN conjunct1] by blast
  have R2: "\<And>v. v \<in> set (nodeIds network) \<Longrightarrow> P v = Some Null \<or> lt (getDist D v) Infinity"
    using inv0 [THEN conjunct2] by blast
  from findMin_first_least [OF fm] have k: "getDist D c = m" by auto
  from findMin_below [OF fm] k have below: "lt (getDist D c) Infinity" by simp
  let ?U' = "removeAll c U"
  obtain D' P' where f: "fold (relaxEdge c ?U') (net_edges network) (D, P) = (D', P')"
    by (cases "fold (relaxEdge c ?U') (net_edges network) (D, P)") auto
  then have vis: "visit network c (D, P, U) = (D', P', ?U')"
    by (simp add: visit_def Let_def)
  have cU': "c \<notin> set ?U'" by simp
  from fold_relaxEdge_effect [OF k cU' f]
  have F2: "\<And>x. (getDist D' x = getDist D x \<and> P' x = P x) \<or>
          (x \<in> set ?U' \<and> (\<exists>e \<in> set (net_edges network). joins (Some c) (Some x) e \<and>
             getDist D' x = add m (edge_cost e) \<and> P' x = Some (Str c) \<and>
             lt (add m (edge_cost e)) (getDist D x)))"
    by blast
  have J1: "\<exists>es. walk network s es v" if v: "lt (getDist D' v) Infinity" for v
    using F2 [of v]
  proof
    assume "getDist D' v = getDist D v \<and> P' v = P v"
    with v R1 [of v] show ?thesis by simp
  next
    assume "v \<in> set ?U' \<and> (\<exists>e \<in> set (net_edges network). joins (Some c) (Some v) e \<and>
             getDist D' v = add m (edge_cost e) \<and> P' v = Some (Str c) \<and>
             lt (add m (edge_cost e)) (getDist D v))"
    then obtain e where e: "e \<in> set (net_edges network)" "joins (Some c) (Some v) e"
      by (elim conjE bexE)
    from R1 [OF below] obtain es where "walk network s es c" ..
    from walk_append [OF this walk_single [OF e]] show ?thesis ..
  qed
  have J2: "P' v = Some Null \<or> lt (getDist D' v) Infinity" if "v \<in> set (nodeIds network)" for v
    using F2 [of v]
  proof
    assume "getDist D' v = getDist D v \<and> P' v = P v"
    with R2 [OF that] show ?thesis by simp
  next
    assume "v \<in> set ?U' \<and> (\<exists>e \<in> set (net_edges network). joins (Some c) (Some v) e \<and>
             getDist D' v = add m (edge_cost e) \<and> P' v = Some (Str c) \<and>
             lt (add m (edge_cost e)) (getDist D v))"
    then obtain e where e: "e \<in> set (net_edges network)" "joins (Some c) (Some v) e"
      "getDist D' v = add m (edge_cost e)" "P' v = Some (Str c)"
      "lt (add m (edge_cost e)) (getDist D v)"
      by (elim conjE bexE)
    from e(3,5) lt_below [of "getDist D' v" "getDist D v"] show ?thesis by simp
  qed
  have K1: "\<forall>v. lt (getDist D' v) Infinity \<longrightarrow> (\<exists>es. walk network s es v)" using J1 by blast
  have K2: "\<forall>v \<in> set (nodeIds network). P' v = Some Null \<or> lt (getDist D' v) Infinity"
    using J2 by blast
  show ?thesis unfolding vis reachInv_def prod.case by (intro conjI K1 K2)
qed

lemma dijkstra_unreachable:
  assumes dst: "destId \<in> set (nodeIds network)"
    and unreachable: "\<not> (\<exists>es. walk network sourceId es destId)"
  shows "dijkstra network sourceId destId = Some []"
proof -
  obtain D P U where ml: "mainLoop network destId (initState network sourceId) = (D, P, U)"
    by (cases "mainLoop network destId (initState network sourceId)") auto
  have "reachInv network sourceId (mainLoop network destId (initState network sourceId))"
  proof (rule mainLoop_invariant)
    show "reachInv network sourceId (initState network sourceId)" by (rule reachInv_init)
  next
    fix D P U c m
    assume "reachInv network sourceId (D, P, U)" "findMin D U = (Str c, m)"
    then show "reachInv network sourceId (visit network c (D, P, U))" by (rule reachInv_visit)
  qed
  with ml have inv: "reachInv network sourceId (D, P, U)" by simp
  note inv0 = inv [unfolded reachInv_def prod.case]
  from inv0 [THEN conjunct1] unreachable have "\<not> lt (getDist D destId) Infinity" by blast
  with inv0 [THEN conjunct2] dst have "P destId = Some Null" by blast
  then have "reconstruct network P (Some destId) [] = Some []"
    by (simp add: reconstruct.simps [of network P "Some destId"] getPrev_def)
  with ml show ?thesis by (simp add: dijkstra_def)
qed

lemma dijkstra_absent_source:
  assumes src: "sourceId \<notin> set (nodeIds network)" and dst: "destId \<in> set (nodeIds network)"
  shows "dijkstra network sourceId destId = Some []"
proof -
  obtain D P U where st: "initState network sourceId = (D, P, U)"
    by (cases "initState network sourceId") auto
  note p = initState_props [OF st]
  from p(1,3) src have "\<forall>k \<in> set U. getDist D k = Infinity" by (auto simp: getDist_def)
  then have "\<forall>k \<in> set U. \<not> lt (getDist D k) Infinity" by simp
  from findMin_none_finite [OF this] have "mainLoop network destId (D, P, U) = (D, P, U)"
    by (simp add: mainLoop.simps [of network destId D P U])
  moreover from p(2) dst have "P destId = Some Null" by simp
  then have "reconstruct network P (Some destId) [] = Some []"
    by (simp add: reconstruct.simps [of network P "Some destId"] getPrev_def)
  ultimately show ?thesis using st by (simp add: dijkstra_def)
qed

text \<open>
  C3. The claim: \<open>dijkstra\<close> returns the empty sequence when the destination is unreachable
  or either id is absent. It does so for a destination of the graph that no walk from the
  source reaches (\<open>dijkstra_unreachable\<close>) and for an absent source
  (\<open>dijkstra_absent_source\<close>). For a destination id that is not a node of the graph the
  reconstruction loop reads \<open>undefined\<close> from the map, which is not \<open>null\<close>, and never
  stops (\<open>dijkstra_absent_destination\<close>): on the default network, from A to the absent id
  Z, \<open>dijkstra\<close> does not return.
\<close>

theorem C3_absent_destination_never_returns:
  "dijkstra getDefaultNetwork ''A'' ''Z'' = None"
proof -
  have "''Z'' \<notin> set (nodeIds getDefaultNetwork)"
    by (simp add: nodeIds_def getDefaultNetwork_def mkNode_def)
  then show ?thesis by (rule dijkstra_absent_destination)
qed

section \<open>Correctness of the route\<close>

text \<open>
  The chain of previous pointers from a node back to the source, inside a set A of nodes,
  together with the segments that \<open>reconstruct\<close> builds along it.
\<close>

inductive treePath ::
  "string Network \<Rightarrow> prev_map \<Rightarrow> string set \<Rightarrow> string \<Rightarrow> string \<Rightarrow> PathSegment list \<Rightarrow> bool"
  for network P A s where
  root: "s \<in> A \<Longrightarrow> P s = Some Null \<Longrightarrow> treePath network P A s s []"
| step: "treePath network P A s u segs \<Longrightarrow> v \<in> A \<Longrightarrow> P v = Some (Str u) \<Longrightarrow>
         find (joins (Some u) (Some v)) (net_edges network) = Some e \<Longrightarrow>
         treePath network P A s v
           (segs @ [\<lparr>seg_from = findNode network (Some u), seg_to = findNode network (Some v), seg_edge = e\<rparr>])"

lemma treePath_reconstruct:
  "treePath network P A s v segs \<Longrightarrow> reconstruct network P (Some v) path = Some (segs @ path)"
proof (induction arbitrary: path rule: treePath.induct)
  case root
  then show ?case by (simp add: reconstruct.simps [of network P "Some s"] getPrev_def)
next
  case (step u segs v e)
  have "reconstruct network P (Some v) path =
      reconstruct network P (Some u)
        (\<lparr>seg_from = findNode network (Some u), seg_to = findNode network (Some v), seg_edge = e\<rparr> # path)"
    using step.hyps by (simp add: reconstruct.simps [of network P "Some v"] getPrev_def unshiftSegment_def Let_def)
  with step.IH show ?case by simp
qed

lemma treePath_transfer:
  "treePath network P A s v segs \<Longrightarrow> A \<subseteq> A' \<Longrightarrow> (\<forall>w \<in> A. P' w = P w) \<Longrightarrow>
   treePath network P' A' s v segs"
proof (induction rule: treePath.induct)
  case root
  then show ?case by (auto intro: treePath.root)
next
  case (step u segs v e)
  then show ?case by (auto intro!: treePath.step)
qed

lemma treePath_walk:
  "treePath network P A s v segs \<Longrightarrow> walk network s (map seg_edge segs) v"
proof (induction rule: treePath.induct)
  case root
  then show ?case by simp
next
  case (step u segs v e)
  from step.hyps(4) have e: "e \<in> set (net_edges network)" "joins (Some u) (Some v) e"
    by (auto simp: find_Some_iff)
  from walk_append [OF step.IH walk_single [OF e]] show ?case by simp
qed

lemma treePath_ends:
  "treePath network P A s v segs \<Longrightarrow>
     (segs = [] \<longrightarrow> v = s) \<and>
     (segs \<noteq> [] \<longrightarrow> seg_from (hd segs) = findNode network (Some s) \<and>
                     seg_to (last segs) = findNode network (Some v))"
proof (induction rule: treePath.induct)
  case root
  then show ?case by simp
next
  case (step u segs v e)
  show ?case
  proof (cases segs)
    case Nil
    with step.IH show ?thesis by simp
  next
    case (Cons a list)
    with step.IH show ?thesis by simp
  qed
qed

lemma treePath_chain:
  "treePath network P A s v segs \<Longrightarrow> Suc i < length segs \<Longrightarrow>
     seg_to (segs ! i) = seg_from (segs ! Suc i)"
proof (induction arbitrary: i rule: treePath.induct)
  case root
  then show ?case by simp
next
  case (step u segs v e)
  show ?case
  proof (cases "Suc i < length segs")
    case True
    with step.IH [OF True] show ?thesis by (simp add: nth_append)
  next
    case False
    with step.prems have l: "Suc i = length segs" by simp
    then have ne: "segs \<noteq> []" by auto
    with l have "segs ! i = last segs"
      by (metis diff_Suc_1 last_conv_nth)
    moreover from treePath_ends [OF step.hyps(1)] ne
    have "seg_to (last segs) = findNode network (Some u)" by simp
    ultimately show ?thesis using l by (simp add: nth_append)
  qed
qed

lemma treePath_members:
  "treePath network P A s v segs \<Longrightarrow> seg \<in> set segs \<Longrightarrow>
     seg_edge seg \<in> set (net_edges network) \<and>
     (\<exists>a b. seg_from seg = findNode network (Some a) \<and> seg_to seg = findNode network (Some b) \<and>
        joins (Some a) (Some b) (seg_edge seg))"
proof (induction rule: treePath.induct)
  case root
  then show ?case by simp
next
  case (step u segs v e)
  from step.hyps(4) have e: "e \<in> set (net_edges network)" "joins (Some u) (Some v) e"
    by (auto simp: find_Some_iff)
  show ?case
  proof (cases "seg \<in> set segs")
    case True
    with step.IH show ?thesis by simp
  next
    case False
    with step.prems have "seg = \<lparr>seg_from = findNode network (Some u), seg_to = findNode network (Some v), seg_edge = e\<rparr>"
      by simp
    with e show ?thesis by auto
  qed
qed

definition visited :: "string Network \<Rightarrow> string list \<Rightarrow> string set" where
  "visited network U = set (nodeIds network) - set U"

definition wellFormed :: "string Network \<Rightarrow> bool" where
  "wellFormed network =
     ((\<forall>e \<in> set (net_edges network). 0 \<le> edge_cost e) \<and>
      (\<forall>e \<in> set (net_edges network).
          edge_from e \<in> set (nodeIds network) \<and> edge_to e \<in> set (nodeIds network)) \<and>
      [] \<notin> set (nodeIds network) \<and>
      (\<forall>e \<in> set (net_edges network). \<forall>e' \<in> set (net_edges network).
          joins (Some (edge_from e)) (Some (edge_to e)) e' \<longrightarrow> edge_cost e' = edge_cost e) \<and>
      (\<forall>e \<in> set (net_edges network). edge_cost e * int (length (net_nodes network)) < 2 ^ 53))"

definition searchInv :: "string Network \<Rightarrow> string \<Rightarrow> solver_state \<Rightarrow> bool" where
  "searchInv network s st =
     (case st of (D, P, U) \<Rightarrow>
        set U \<subseteq> set (nodeIds network) \<and>
        (\<forall>v \<in> set (nodeIds network). getDist D v = Infinity \<or> (\<exists>n. 0 \<le> n \<and> getDist D v = Num n)) \<and>
        getDist D s = Num 0 \<and> P s = Some Null \<and>
        (\<forall>v \<in> set (nodeIds network). getDist D v = Infinity \<longrightarrow> P v = Some Null) \<and>
        (\<forall>v \<in> set (nodeIds network). \<forall>n. getDist D v = Num n \<longrightarrow> v \<noteq> s \<longrightarrow>
           (\<exists>u e m. u \<in> visited network U \<and> P v = Some (Str u) \<and> getDist D u = Num m \<and>
              e \<in> set (net_edges network) \<and> joins (Some u) (Some v) e \<and> n = m + edge_cost e)) \<and>
        (\<forall>u \<in> visited network U. \<exists>segs n.
           treePath network P (visited network U) s u segs \<and> getDist D u = Num n \<and>
           totalCost segs = Num n \<and> walkCost (map seg_edge segs) = n) \<and>
        (\<forall>u \<in> visited network U. \<forall>e \<in> set (net_edges network). \<forall>w.
           joins (Some u) (Some w) e \<longrightarrow>
           (\<exists>m n. getDist D u = Num m \<and> getDist D w = Num n \<and> n \<le> m + edge_cost e)) \<and>
        (\<forall>u \<in> visited network U. \<forall>w \<in> set U.
           \<exists>m. getDist D u = Num m \<and> (\<forall>n. getDist D w = Num n \<longrightarrow> m \<le> n)) \<and>
        (s \<in> set U \<longrightarrow> (\<forall>v \<in> set U. v \<noteq> s \<longrightarrow> getDist D v = Infinity)) \<and>
        (\<forall>v \<in> set (nodeIds network). \<forall>n. getDist D v = Num n \<longrightarrow>
           n * int (length (net_nodes network)) \<le>
             (2 ^ 53 - 1) * (int (length (net_nodes network)) - int (length U))))"

lemma searchInv_init:
  assumes "s \<in> set (nodeIds network)"
  shows "searchInv network s (initState network s)"
proof -
  obtain D P U where st: "initState network s = (D, P, U)"
    by (cases "initState network s") auto
  note p = initState_props [OF st]
  have d: "\<And>v. v \<in> set (nodeIds network) \<Longrightarrow> getDist D v = (if v = s then Num 0 else Infinity)"
    using p(1) by (simp add: getDist_def)
  have pn: "\<And>v. v \<in> set (nodeIds network) \<Longrightarrow> P v = Some Null"
    using p(2) by simp
  have v: "visited network U = {}" using p(3) by (simp add: visited_def)
  have "length U = card (set (nodeIds network))"
    using p(3,4) distinct_card [of U] by simp
  then have len: "int (length U) \<le> int (length (net_nodes network))"
    using card_length [of "nodeIds network"] by (simp add: nodeIds_def)
  have b: "\<forall>v \<in> set (nodeIds network). \<forall>n. getDist D v = Num n \<longrightarrow>
           n * int (length (net_nodes network)) \<le>
             (2 ^ 53 - 1) * (int (length (net_nodes network)) - int (length U))"
  proof (intro ballI allI impI)
    fix v n assume "v \<in> set (nodeIds network)" "getDist D v = Num n"
    with d [of v] have "n = 0" by (simp split: if_splits)
    with len show "n * int (length (net_nodes network)) \<le>
             (2 ^ 53 - 1) * (int (length (net_nodes network)) - int (length U))" by simp
  qed
  have a: "set U \<subseteq> set (nodeIds network) \<and>
        (\<forall>v \<in> set (nodeIds network). getDist D v = Infinity \<or> (\<exists>n. 0 \<le> n \<and> getDist D v = Num n)) \<and>
        getDist D s = Num 0 \<and> P s = Some Null \<and>
        (\<forall>v \<in> set (nodeIds network). getDist D v = Infinity \<longrightarrow> P v = Some Null) \<and>
        (\<forall>v \<in> set (nodeIds network). \<forall>n. getDist D v = Num n \<longrightarrow> v \<noteq> s \<longrightarrow>
           (\<exists>u e m. u \<in> {} \<and> P v = Some (Str u) \<and> getDist D u = Num m \<and>
              e \<in> set (net_edges network) \<and> joins (Some u) (Some v) e \<and> n = m + edge_cost e)) \<and>
        (\<forall>u \<in> {}. \<exists>segs n.
           treePath network P {} s u segs \<and> getDist D u = Num n \<and>
           totalCost segs = Num n \<and> walkCost (map seg_edge segs) = n) \<and>
        (\<forall>u \<in> {}. \<forall>e \<in> set (net_edges network). \<forall>w.
           joins (Some u) (Some w) e \<longrightarrow>
           (\<exists>m n. getDist D u = Num m \<and> getDist D w = Num n \<and> n \<le> m + edge_cost e)) \<and>
        (\<forall>u \<in> {}. \<forall>w \<in> set U.
           \<exists>m. getDist D u = Num m \<and> (\<forall>n. getDist D w = Num n \<longrightarrow> m \<le> n)) \<and>
        (s \<in> set U \<longrightarrow> (\<forall>v \<in> set U. v \<noteq> s \<longrightarrow> getDist D v = Infinity))"
    using assms d pn p(3) by auto
  show ?thesis
    unfolding st searchInv_def prod.case v
    using a b by (elim conjE) (intro conjI; assumption)
qed

lemma searchInvD:
  assumes inv: "searchInv network s (D, P, U)"
  shows "set U \<subseteq> set (nodeIds network)"
    and "\<And>v. v \<in> set (nodeIds network) \<Longrightarrow>
           getDist D v = Infinity \<or> (\<exists>n. 0 \<le> n \<and> getDist D v = Num n)"
    and "getDist D s = Num 0" and "P s = Some Null"
    and "\<And>v. v \<in> set (nodeIds network) \<Longrightarrow> getDist D v = Infinity \<Longrightarrow> P v = Some Null"
    and "\<And>v n. v \<in> set (nodeIds network) \<Longrightarrow> getDist D v = Num n \<Longrightarrow> v \<noteq> s \<Longrightarrow>
           (\<exists>u e m. u \<in> visited network U \<and> P v = Some (Str u) \<and> getDist D u = Num m \<and>
              e \<in> set (net_edges network) \<and> joins (Some u) (Some v) e \<and> n = m + edge_cost e)"
    and "\<And>u. u \<in> visited network U \<Longrightarrow> \<exists>segs n.
           treePath network P (visited network U) s u segs \<and> getDist D u = Num n \<and>
           totalCost segs = Num n \<and> walkCost (map seg_edge segs) = n"
    and "\<And>u e w. u \<in> visited network U \<Longrightarrow> e \<in> set (net_edges network) \<Longrightarrow>
           joins (Some u) (Some w) e \<Longrightarrow>
           (\<exists>m n. getDist D u = Num m \<and> getDist D w = Num n \<and> n \<le> m + edge_cost e)"
    and "\<And>u w. u \<in> visited network U \<Longrightarrow> w \<in> set U \<Longrightarrow>
           \<exists>m. getDist D u = Num m \<and> (\<forall>n. getDist D w = Num n \<longrightarrow> m \<le> n)"
    and "s \<in> set U \<Longrightarrow> (\<forall>v \<in> set U. v \<noteq> s \<longrightarrow> getDist D v = Infinity)"
    and "\<And>v n. v \<in> set (nodeIds network) \<Longrightarrow> getDist D v = Num n \<Longrightarrow>
           n * int (length (net_nodes network)) \<le>
             (2 ^ 53 - 1) * (int (length (net_nodes network)) - int (length U))"
proof -
  note inv0 = inv [unfolded searchInv_def prod.case]
  note r1 = inv0 [THEN conjunct2]
  note r2 = r1 [THEN conjunct2]
  note r4 = r2 [THEN conjunct2, THEN conjunct2]
  note r5 = r4 [THEN conjunct2]
  note r6 = r5 [THEN conjunct2]
  note r7 = r6 [THEN conjunct2]
  note r8 = r7 [THEN conjunct2]
  note r9 = r8 [THEN conjunct2]
  show "set U \<subseteq> set (nodeIds network)" using inv0 [THEN conjunct1] .
  show "\<And>v. v \<in> set (nodeIds network) \<Longrightarrow>
           getDist D v = Infinity \<or> (\<exists>n. 0 \<le> n \<and> getDist D v = Num n)"
    using r1 [THEN conjunct1] by blast
  show "getDist D s = Num 0" using r2 [THEN conjunct1] .
  show "P s = Some Null" using r2 [THEN conjunct2, THEN conjunct1] .
  show "\<And>v. v \<in> set (nodeIds network) \<Longrightarrow> getDist D v = Infinity \<Longrightarrow> P v = Some Null"
    using r4 [THEN conjunct1] by blast
  show "\<And>v n. v \<in> set (nodeIds network) \<Longrightarrow> getDist D v = Num n \<Longrightarrow> v \<noteq> s \<Longrightarrow>
           (\<exists>u e m. u \<in> visited network U \<and> P v = Some (Str u) \<and> getDist D u = Num m \<and>
              e \<in> set (net_edges network) \<and> joins (Some u) (Some v) e \<and> n = m + edge_cost e)"
    using r5 [THEN conjunct1] by blast
  show "\<And>u. u \<in> visited network U \<Longrightarrow> \<exists>segs n.
           treePath network P (visited network U) s u segs \<and> getDist D u = Num n \<and>
           totalCost segs = Num n \<and> walkCost (map seg_edge segs) = n"
    using r6 [THEN conjunct1] by blast
  show "\<And>u e w. u \<in> visited network U \<Longrightarrow> e \<in> set (net_edges network) \<Longrightarrow>
           joins (Some u) (Some w) e \<Longrightarrow>
           (\<exists>m n. getDist D u = Num m \<and> getDist D w = Num n \<and> n \<le> m + edge_cost e)"
    using r7 [THEN conjunct1] by blast
  show "\<And>u w. u \<in> visited network U \<Longrightarrow> w \<in> set U \<Longrightarrow>
           \<exists>m. getDist D u = Num m \<and> (\<forall>n. getDist D w = Num n \<longrightarrow> m \<le> n)"
    using r8 [THEN conjunct1] by blast
  show "s \<in> set U \<Longrightarrow> (\<forall>v \<in> set U. v \<noteq> s \<longrightarrow> getDist D v = Infinity)"
    using r9 [THEN conjunct1] by blast
  show "\<And>v n. v \<in> set (nodeIds network) \<Longrightarrow> getDist D v = Num n \<Longrightarrow>
           n * int (length (net_nodes network)) \<le>
             (2 ^ 53 - 1) * (int (length (net_nodes network)) - int (length U))"
    using r9 [THEN conjunct2] by blast
qed

lemma wellFormedD:
  assumes "wellFormed network"
  shows "\<And>e. e \<in> set (net_edges network) \<Longrightarrow> 0 \<le> edge_cost e"
    and "\<And>e. e \<in> set (net_edges network) \<Longrightarrow>
           edge_from e \<in> set (nodeIds network) \<and> edge_to e \<in> set (nodeIds network)"
    and "[] \<notin> set (nodeIds network)"
    and "\<And>e e'. e \<in> set (net_edges network) \<Longrightarrow> e' \<in> set (net_edges network) \<Longrightarrow>
           joins (Some (edge_from e)) (Some (edge_to e)) e' \<Longrightarrow> edge_cost e' = edge_cost e"
    and "\<And>e. e \<in> set (net_edges network) \<Longrightarrow>
           edge_cost e * int (length (net_nodes network)) < 2 ^ 53"
  using assms unfolding wellFormed_def by blast+

text \<open>
  Every tentative distance stays below \<open>2 ^ 53\<close>: a distance is set in the round of one
  visited node, from that node's distance and one edge cost, and there are no more rounds
  than nodes. So every sum the search forms is a double, and no rounding takes place.
\<close>

lemma searchInv_small:
  assumes inv: "searchInv network s (D, P, U)"
    and v: "v \<in> set (nodeIds network)" and d: "getDist D v = Num n"
  shows "0 \<le> n" and "n < 2 ^ 53"
proof -
  let ?N = "int (length (net_nodes network))"
  from searchInvD(2) [OF inv v] d show "0 \<le> n" by auto
  from v have N: "0 < ?N" by (auto simp: nodeIds_def)
  from searchInvD(11) [OF inv v d] have "n * ?N \<le> (2 ^ 53 - 1) * (?N - int (length U))" .
  also have "\<dots> \<le> (2 ^ 53 - 1) * ?N" by (rule mult_left_mono) simp_all
  finally have "n \<le> 2 ^ 53 - 1" using N by (simp only: mult_le_cancel_right)
  then show "n < 2 ^ 53" by simp
qed

text \<open>A node with a finite tentative distance has its chain of previous pointers, of that cost.\<close>

lemma searchInv_path:
  assumes wf: "wellFormed network" and inv: "searchInv network s (D, P, U)"
    and v: "v \<in> set (nodeIds network)" and d: "getDist D v = Num n"
  shows "\<exists>segs. treePath network P (insert v (visited network U)) s v segs \<and>
           totalCost segs = Num n \<and> walkCost (map seg_edge segs) = n"
proof -
  note W = wellFormedD [OF wf]
  note I = searchInvD [OF inv]
  let ?S = "visited network U"
  have transfer: "treePath network P (insert v ?S) s u segs" if "treePath network P ?S s u segs" for u segs
    using that by (rule treePath_transfer) auto
  show ?thesis
  proof (cases "v = s")
    case True
    with I(3,4) d have "treePath network P (insert v ?S) s v []" "n = 0"
      by (auto intro: treePath.root)
    then show ?thesis by (auto simp: totalCost_def walkCost_def)
  next
    case False
    from I(6) [OF v d False] obtain u0 e m0 where u0: "u0 \<in> ?S" "P v = Some (Str u0)"
      "getDist D u0 = Num m0" "e \<in> set (net_edges network)" "joins (Some u0) (Some v) e"
      "n = m0 + edge_cost e"
      by blast
    from I(7) [OF u0(1)] u0(3) obtain segs0 where s0: "treePath network P ?S s u0 segs0"
      "totalCost segs0 = Num m0" "walkCost (map seg_edge segs0) = m0" by auto
    from u0(4,5) have "find (joins (Some u0) (Some v)) (net_edges network) \<noteq> None"
      by (auto simp: find_None_iff)
    then obtain e' where e': "find (joins (Some u0) (Some v)) (net_edges network) = Some e'"
      by auto
    then have e'E: "e' \<in> set (net_edges network)" "joins (Some u0) (Some v) e'"
      by (auto simp: find_Some_iff)
    from u0(5) e'E(2) have "joins (Some (edge_from e)) (Some (edge_to e)) e'"
      unfolding joins_ends by auto
    from W(4) [OF u0(4) e'E(1) this] have cost: "edge_cost e' = edge_cost e" .
    let ?seg = "\<lparr>seg_from = findNode network (Some u0), seg_to = findNode network (Some v), seg_edge = e'\<rparr>"
    have "treePath network P (insert v ?S) s v (segs0 @ [?seg])"
    proof (rule treePath.step)
      show "treePath network P (insert v ?S) s u0 segs0" using transfer [OF s0(1)] .
      show "v \<in> insert v ?S" by simp
      show "P v = Some (Str u0)" using u0(2) .
      show "find (joins (Some u0) (Some v)) (net_edges network) = Some e'" using e' .
    qed
    moreover have "totalCost (segs0 @ [?seg]) = Num n"
      using s0(2) cost u0(6) add_exact [of m0 "edge_cost e"] searchInv_small [OF inv v d]
      by (simp add: totalCost_snoc)
    moreover have "walkCost (map seg_edge (segs0 @ [?seg])) = n"
      using s0(3) cost u0(6) by (simp add: walkCost_snoc)
    ultimately show ?thesis by blast
  qed
qed

lemma searchInv_visit:
  assumes wf: "wellFormed network" and inv: "searchInv network s (D, P, U)"
    and fm: "findMin D U = (Str c, m)" and fin: "m \<noteq> Infinity"
  shows "searchInv network s (visit network c (D, P, U))"
proof -
  let ?V = "set (nodeIds network)" and ?E = "set (net_edges network)"
  let ?S = "visited network U"
  let ?N = "int (length (net_nodes network))"
  note W1 = wellFormedD(1) [OF wf] and W2 = wellFormedD(2) [OF wf] and W4 = wellFormedD(4) [OF wf]
    and W5 = wellFormedD(5) [OF wf]
  note I1 = searchInvD(1) [OF inv] and I2 = searchInvD(2) [OF inv]
    and I3 = searchInvD(3,4) [OF inv] and I4 = searchInvD(5) [OF inv]
    and I5 = searchInvD(6) [OF inv] and I6 = searchInvD(7) [OF inv]
    and I7 = searchInvD(8) [OF inv] and I8 = searchInvD(9) [OF inv]
    and I9 = searchInvD(10) [OF inv] and I10 = searchInvD(11) [OF inv]
  \<comment> \<open>the selected node\<close>
  from findMin_member [OF fm] have cU: "c \<in> set U" .
  with I1 have cV: "c \<in> ?V" by auto
  from findMin_first_least [OF fm] have mc: "getDist D c = m"
    and least0: "\<forall>j<length U. \<not> lt (getDist D (U ! j)) m" by auto
  from least0 have least: "\<And>w. w \<in> set U \<Longrightarrow> \<not> lt (getDist D w) m"
    by (auto simp: in_set_conv_nth)
  from I2 [OF cV] mc fin obtain k where k: "0 \<le> k" "getDist D c = Num k" "m = Num k" by auto
  \<comment> \<open>the new state\<close>
  let ?U' = "removeAll c U"
  let ?S' = "visited network ?U'"
  obtain D' P' where f: "fold (relaxEdge c ?U') (net_edges network) (D, P) = (D', P')"
    by (cases "fold (relaxEdge c ?U') (net_edges network) (D, P)") auto
  then have vis: "visit network c (D, P, U) = (D', P', ?U')"
    by (simp add: visit_def Let_def)
  have cU': "c \<notin> set ?U'" by simp
  have S': "?S' = insert c ?S" using cV by (auto simp: visited_def)
  have SU: "\<And>x. x \<in> ?S \<Longrightarrow> x \<notin> set U \<and> x \<in> ?V" by (simp add: visited_def)
  \<comment> \<open>the sums of this round are exact\<close>
  have lenU: "int (length ?U') + 1 \<le> int (length U)"
    using length_removeAll_less [OF cU] by simp
  have N: "0 < ?N" using cV by (auto simp: nodeIds_def)
  have room: "(k + edge_cost e) * ?N \<le> (2 ^ 53 - 1) * (?N - int (length ?U'))" if "e \<in> ?E" for e
  proof -
    have "(k + edge_cost e) * ?N = k * ?N + edge_cost e * ?N" by (simp add: algebra_simps)
    also have "\<dots> \<le> (2 ^ 53 - 1) * (?N - int (length U)) + (2 ^ 53 - 1)"
      using I10 [OF cV k(2)] W5 [OF that] by simp
    also have "\<dots> = (2 ^ 53 - 1) * (?N - int (length U) + 1)" by (simp add: algebra_simps)
    also have "\<dots> \<le> (2 ^ 53 - 1) * (?N - int (length ?U'))"
      using lenU by (intro mult_left_mono) simp_all
    finally show ?thesis .
  qed
  have exact: "add (Num k) (edge_cost e) = Num (k + edge_cost e)" if "e \<in> ?E" for e
  proof -
    have "(2 ^ 53 - 1) * (?N - int (length ?U')) \<le> (2 ^ 53 - 1) * ?N"
      by (rule mult_left_mono) simp_all
    with room [OF that] have "(k + edge_cost e) * ?N \<le> (2 ^ 53 - 1) * ?N" by simp
    with N have "k + edge_cost e \<le> 2 ^ 53 - 1" by (simp only: mult_le_cancel_right)
    with k(1) W1 [OF that] show ?thesis by (intro add_exact) simp_all
  qed
  note eff = fold_relaxEdge_effect [OF k(2) cU' f]
  have F2: "(getDist D' x = getDist D x \<and> P' x = P x) \<or>
          (x \<in> set ?U' \<and> (\<exists>e \<in> ?E. joins (Some c) (Some x) e \<and>
             getDist D' x = Num (k + edge_cost e) \<and> P' x = Some (Str c) \<and>
             lt (Num (k + edge_cost e)) (getDist D x)))" for x
  proof -
    from eff have "(getDist D' x = getDist D x \<and> P' x = P x) \<or>
          (x \<in> set ?U' \<and> (\<exists>e \<in> ?E. joins (Some c) (Some x) e \<and>
             getDist D' x = add (Num k) (edge_cost e) \<and> P' x = Some (Str c) \<and>
             lt (add (Num k) (edge_cost e)) (getDist D x)))"
      by blast
    then show ?thesis
    proof
      assume "getDist D' x = getDist D x \<and> P' x = P x"
      then show ?thesis by simp
    next
      assume "x \<in> set ?U' \<and> (\<exists>e \<in> ?E. joins (Some c) (Some x) e \<and>
             getDist D' x = add (Num k) (edge_cost e) \<and> P' x = Some (Str c) \<and>
             lt (add (Num k) (edge_cost e)) (getDist D x))"
      then obtain e where xU: "x \<in> set ?U'" and e: "e \<in> ?E" "joins (Some c) (Some x) e"
        "getDist D' x = add (Num k) (edge_cost e)" "P' x = Some (Str c)"
        "lt (add (Num k) (edge_cost e)) (getDist D x)"
        by (elim conjE bexE)
      from e(3,5) have "getDist D' x = Num (k + edge_cost e)"
        "lt (Num (k + edge_cost e)) (getDist D x)"
        by (simp_all only: exact [OF e(1)])
      with xU e(1,2,4) show ?thesis by blast
    qed
  qed
  have F3: "\<not> lt (Num (k + edge_cost e)) (getDist D' x)"
    if "x \<in> set ?U'" "e \<in> ?E" "joins (Some c) (Some x) e" for x e
  proof -
    from eff that have "\<not> lt (add (Num k) (edge_cost e)) (getDist D' x)" by blast
    then show ?thesis unfolding exact [OF that(2)] .
  qed
  have F1: "getDist D' x = getDist D x \<and> P' x = P x" if "x \<notin> set ?U'" for x
    using F2 [of x] that by blast
  have F1S: "getDist D' x = getDist D x \<and> P' x = P x" if "x \<in> ?S" for x
    using F1 [of x] SU [OF that] by simp
  have F1c: "getDist D' c = Num k" "P' c = P c" using F1 [OF cU'] k(2) by simp_all
  \<comment> \<open>the clauses of the invariant\<close>
  have J1: "set ?U' \<subseteq> ?V" using I1 by auto
  have J2: "getDist D' v = Infinity \<or> (\<exists>n. 0 \<le> n \<and> getDist D' v = Num n)" if "v \<in> ?V" for v
    using F2 [of v]
  proof
    assume "getDist D' v = getDist D v \<and> P' v = P v"
    with I2 [OF that] show ?thesis by simp
  next
    assume "v \<in> set ?U' \<and> (\<exists>e \<in> ?E. joins (Some c) (Some v) e \<and>
             getDist D' v = Num (k + edge_cost e) \<and> P' v = Some (Str c) \<and>
             lt (Num (k + edge_cost e)) (getDist D v))"
    then obtain e where "e \<in> ?E" "getDist D' v = Num (k + edge_cost e)" by blast
    with W1 [of e] k(1) show ?thesis by simp
  qed
  have J3: "getDist D' s = Num 0 \<and> P' s = Some Null"
    using F2 [of s]
  proof
    assume "getDist D' s = getDist D s \<and> P' s = P s"
    with I3 show ?thesis by simp
  next
    assume "s \<in> set ?U' \<and> (\<exists>e \<in> ?E. joins (Some c) (Some s) e \<and>
             getDist D' s = Num (k + edge_cost e) \<and> P' s = Some (Str c) \<and>
             lt (Num (k + edge_cost e)) (getDist D s))"
    then obtain e where "e \<in> ?E" "lt (Num (k + edge_cost e)) (getDist D s)" by blast
    with W1 [of e] k(1) I3(1) show ?thesis by simp
  qed
  have J4: "P' v = Some Null" if "v \<in> ?V" "getDist D' v = Infinity" for v
    using F2 [of v] that I4 [of v] by auto
  have J5: "\<exists>u e m. u \<in> ?S' \<and> P' v = Some (Str u) \<and> getDist D' u = Num m \<and>
              e \<in> ?E \<and> joins (Some u) (Some v) e \<and> n = m + edge_cost e"
    if v: "v \<in> ?V" "getDist D' v = Num n" "v \<noteq> s" for v n
    using F2 [of v]
  proof
    assume same: "getDist D' v = getDist D v \<and> P' v = P v"
    with v have "getDist D v = Num n" by simp
    from I5 [OF v(1) this v(3)] obtain u e m' where u: "u \<in> ?S" "P v = Some (Str u)"
      "getDist D u = Num m'" "e \<in> ?E" "joins (Some u) (Some v) e" "n = m' + edge_cost e"
      by blast
    from F1S [OF u(1)] u(3) have "getDist D' u = Num m'" by simp
    with u same S' show ?thesis by auto
  next
    assume "v \<in> set ?U' \<and> (\<exists>e \<in> ?E. joins (Some c) (Some v) e \<and>
             getDist D' v = Num (k + edge_cost e) \<and> P' v = Some (Str c) \<and>
             lt (Num (k + edge_cost e)) (getDist D v))"
    then obtain e where e: "e \<in> ?E" "joins (Some c) (Some v) e"
      "getDist D' v = Num (k + edge_cost e)" "P' v = Some (Str c)" by blast
    with v(2) have "n = k + edge_cost e" by simp
    with e F1c(1) S' show ?thesis by auto
  qed
  have transfer: "treePath network P' ?S' s u segs" if "treePath network P ?S s u segs" for u segs
    using that
  proof (rule treePath_transfer)
    show "?S \<subseteq> ?S'" using S' by auto
    show "\<forall>w \<in> ?S. P' w = P w" using F1S by simp
  qed
  have J6: "\<exists>segs n. treePath network P' ?S' s u segs \<and> getDist D' u = Num n \<and>
              totalCost segs = Num n \<and> walkCost (map seg_edge segs) = n"
    if u: "u \<in> ?S'" for u
  proof (cases "u = c")
    case False
    with u S' have uS: "u \<in> ?S" by simp
    from I6 [OF uS] obtain segs n where "treePath network P ?S s u segs" "getDist D u = Num n"
      "totalCost segs = Num n" "walkCost (map seg_edge segs) = n" by blast
    with transfer F1S [OF uS] show ?thesis by auto
  next
    case True
    from searchInv_path [OF wf inv cV k(2)] obtain segs where
      segs: "treePath network P (insert c ?S) s c segs" "totalCost segs = Num k"
        "walkCost (map seg_edge segs) = k" by blast
    have "\<forall>w \<in> insert c ?S. P' w = P w" using F1S F1c(2) by auto
    from treePath_transfer [OF segs(1) _ this, of ?S'] S'
    have "treePath network P' ?S' s c segs" by simp
    with segs(2,3) True F1c(1) show ?thesis by blast
  qed
  have J7: "\<exists>m n. getDist D' u = Num m \<and> getDist D' w = Num n \<and> n \<le> m + edge_cost e"
    if u: "u \<in> ?S'" and e: "e \<in> ?E" and j: "joins (Some u) (Some w) e" for u e w
  proof (cases "u = c")
    case False
    with u S' have uS: "u \<in> ?S" by simp
    from I7 [OF uS e j] obtain m' n0 where o: "getDist D u = Num m'" "getDist D w = Num n0"
      "n0 \<le> m' + edge_cost e" by blast
    from F1S [OF uS] o(1) have du: "getDist D' u = Num m'" by simp
    from F2 [of w] show ?thesis
    proof
      assume "getDist D' w = getDist D w \<and> P' w = P w"
      with o du show ?thesis by simp
    next
      assume "w \<in> set ?U' \<and> (\<exists>e \<in> ?E. joins (Some c) (Some w) e \<and>
             getDist D' w = Num (k + edge_cost e) \<and> P' w = Some (Str c) \<and>
             lt (Num (k + edge_cost e)) (getDist D w))"
      then obtain e1 where "e1 \<in> ?E" "getDist D' w = Num (k + edge_cost e1)"
        "lt (Num (k + edge_cost e1)) (getDist D w)"
        by (elim conjE bexE)
      with o du show ?thesis by simp
    qed
  next
    case True
    from j W2 [OF e] have wV: "w \<in> ?V" unfolding joins_ends by auto
    show ?thesis
    proof (cases "w \<in> set ?U'")
      case wU: True
      from F3 [OF wU e] j True have "\<not> lt (Num (k + edge_cost e)) (getDist D' w)" by simp
      with J2 [OF wV] obtain n where "getDist D' w = Num n" "n \<le> k + edge_cost e" by auto
      with True F1c(1) show ?thesis by simp
    next
      case False
      show ?thesis
      proof (cases "w = c")
        case True
        with \<open>u = c\<close> F1c(1) W1 [OF e] show ?thesis by simp
      next
        case wc: False
        with False wV have wS: "w \<in> ?S" by (auto simp: visited_def)
        from I8 [OF wS cU] k(2) obtain mw where "getDist D w = Num mw" "mw \<le> k" by auto
        with F1S [OF wS] have "getDist D' w = Num mw" "mw \<le> k + edge_cost e"
          using W1 [OF e] by simp_all
        with True F1c(1) show ?thesis by simp
      qed
    qed
  qed
  have J8: "\<exists>m. getDist D' u = Num m \<and> (\<forall>n. getDist D' w = Num n \<longrightarrow> m \<le> n)"
    if u: "u \<in> ?S'" and w: "w \<in> set ?U'" for u w
  proof -
    from w have wU: "w \<in> set U" by simp
    have lower: "\<forall>n. getDist D' w = Num n \<longrightarrow> k \<le> n"
    proof (intro allI impI)
      fix n assume n: "getDist D' w = Num n"
      from F2 [of w] show "k \<le> n"
      proof
        assume "getDist D' w = getDist D w \<and> P' w = P w"
        with n least [OF wU] k(3) show ?thesis by simp
      next
        assume "w \<in> set ?U' \<and> (\<exists>e \<in> ?E. joins (Some c) (Some w) e \<and>
             getDist D' w = Num (k + edge_cost e) \<and> P' w = Some (Str c) \<and>
             lt (Num (k + edge_cost e)) (getDist D w))"
        then obtain e where "e \<in> ?E" "getDist D' w = Num (k + edge_cost e)" by blast
        with n W1 [of e] show ?thesis by simp
      qed
    qed
    show ?thesis
    proof (cases "u = c")
      case True
      with F1c(1) lower show ?thesis by simp
    next
      case False
      with u S' have uS: "u \<in> ?S" by simp
      from I8 [OF uS cU] k(2) obtain mu where mu: "getDist D u = Num mu" "mu \<le> k" by auto
      with F1S [OF uS] lower show ?thesis by auto
    qed
  qed
  have J9: "s \<in> set ?U' \<longrightarrow> (\<forall>v \<in> set ?U'. v \<noteq> s \<longrightarrow> getDist D' v = Infinity)"
  proof
    assume "s \<in> set ?U'"
    then have "s \<in> set U" "c \<noteq> s" by auto
    with I9 cU have "getDist D c = Infinity" by auto
    with k(2) show "\<forall>v \<in> set ?U'. v \<noteq> s \<longrightarrow> getDist D' v = Infinity" by simp
  qed
  have K2: "\<forall>v \<in> ?V. getDist D' v = Infinity \<or> (\<exists>n. 0 \<le> n \<and> getDist D' v = Num n)"
    using J2 by blast
  have K4: "\<forall>v \<in> ?V. getDist D' v = Infinity \<longrightarrow> P' v = Some Null"
    using J4 by blast
  have K5: "\<forall>v \<in> ?V. \<forall>n. getDist D' v = Num n \<longrightarrow> v \<noteq> s \<longrightarrow>
           (\<exists>u e m. u \<in> ?S' \<and> P' v = Some (Str u) \<and> getDist D' u = Num m \<and>
              e \<in> ?E \<and> joins (Some u) (Some v) e \<and> n = m + edge_cost e)"
    using J5 by blast
  have K6: "\<forall>u \<in> ?S'. \<exists>segs n.
           treePath network P' ?S' s u segs \<and> getDist D' u = Num n \<and>
           totalCost segs = Num n \<and> walkCost (map seg_edge segs) = n"
    using J6 by blast
  have K7: "\<forall>u \<in> ?S'. \<forall>e \<in> ?E. \<forall>w.
           joins (Some u) (Some w) e \<longrightarrow>
           (\<exists>m n. getDist D' u = Num m \<and> getDist D' w = Num n \<and> n \<le> m + edge_cost e)"
    using J7 by blast
  have K8: "\<forall>u \<in> ?S'. \<forall>w \<in> set ?U'.
           \<exists>m. getDist D' u = Num m \<and> (\<forall>n. getDist D' w = Num n \<longrightarrow> m \<le> n)"
    using J8 by blast
  have K10: "\<forall>v \<in> ?V. \<forall>n. getDist D' v = Num n \<longrightarrow>
           n * ?N \<le> (2 ^ 53 - 1) * (?N - int (length ?U'))"
  proof (intro ballI allI impI)
    fix v n assume v: "v \<in> ?V" "getDist D' v = Num n"
    from F2 [of v] show "n * ?N \<le> (2 ^ 53 - 1) * (?N - int (length ?U'))"
    proof
      assume "getDist D' v = getDist D v \<and> P' v = P v"
      with v have "n * ?N \<le> (2 ^ 53 - 1) * (?N - int (length U))" using I10 [of v n] by simp
      also have "\<dots> \<le> (2 ^ 53 - 1) * (?N - int (length ?U'))"
        using lenU by (intro mult_left_mono) simp_all
      finally show ?thesis .
    next
      assume "v \<in> set ?U' \<and> (\<exists>e \<in> ?E. joins (Some c) (Some v) e \<and>
             getDist D' v = Num (k + edge_cost e) \<and> P' v = Some (Str c) \<and>
             lt (Num (k + edge_cost e)) (getDist D v))"
      then obtain e where "e \<in> ?E" "getDist D' v = Num (k + edge_cost e)" by blast
      with v(2) room [of e] show ?thesis by simp
    qed
  qed
  show ?thesis
    unfolding vis searchInv_def prod.case
    by (intro conjI J1 K2 conjunct1 [OF J3] conjunct2 [OF J3] K4 K5 K6 K7 K8 J9 K10)
qed

lemma searchInv_mainLoop:
  assumes wf: "wellFormed network" and s: "s \<in> set (nodeIds network)"
  shows "searchInv network s (mainLoop network destId (initState network s))"
proof (rule mainLoop_invariant)
  show "searchInv network s (initState network s)" using s by (rule searchInv_init)
next
  fix D P U c m
  assume "searchInv network s (D, P, U)" "findMin D U = (Str c, m)" "m \<noteq> Infinity"
  with wf show "searchInv network s (visit network c (D, P, U))" by (rule searchInv_visit)
qed

text \<open>Along a walk that starts at a visited node, the first unvisited node has a finite distance.\<close>

lemma walk_reaches:
  assumes wf: "wellFormed network" and inv: "searchInv network s (D, P, U)"
  shows "walk network u es t \<Longrightarrow> u \<in> visited network U \<Longrightarrow>
           t \<in> visited network U \<or> (\<exists>w \<in> set U. \<exists>k. getDist D w = Num k)"
proof (induction es arbitrary: u)
  case Nil
  then show ?case by simp
next
  case (Cons e es)
  note W = wellFormedD [OF wf] and I = searchInvD [OF inv]
  from Cons.prems(1) have e: "e \<in> set (net_edges network)" by simp
  from Cons.prems(1) obtain w where w: "joins (Some u) (Some w) e" "walk network w es t"
    by (auto simp: joins_def)
  from w(1) W(2) [OF e] have wV: "w \<in> set (nodeIds network)" unfolding joins_ends by auto
  from I(8) [OF Cons.prems(2) e w(1)] obtain k where k: "getDist D w = Num k" by blast
  show ?case
  proof (cases "w \<in> set U")
    case True
    with k show ?thesis by blast
  next
    case False
    with wV have "w \<in> visited network U" by (simp add: visited_def)
    from Cons.IH [OF w(2) this] show ?thesis .
  qed
qed

text \<open>The distance of the destination bounds every walk from a visited node.\<close>

lemma walk_bound:
  assumes wf: "wellFormed network" and inv: "searchInv network s (D, P, U)"
    and t: "getDist D t = Num n" and tmin: "\<And>w k. w \<in> set U \<Longrightarrow> getDist D w = Num k \<Longrightarrow> n \<le> k"
  shows "walk network u es t \<Longrightarrow> u \<in> visited network U \<Longrightarrow> getDist D u = Num m \<Longrightarrow>
           n \<le> m + walkCost es"
proof (induction es arbitrary: u m)
  case Nil
  with t show ?case by (simp add: walkCost_def)
next
  case (Cons e es)
  note W = wellFormedD [OF wf] and I = searchInvD [OF inv]
  from Cons.prems(1) have e: "e \<in> set (net_edges network)" by simp
  from Cons.prems(1) obtain w where w: "joins (Some u) (Some w) e" "walk network w es t"
    by (auto simp: joins_def)
  from w(1) W(2) [OF e] have wV: "w \<in> set (nodeIds network)" unfolding joins_ends by auto
  from I(8) [OF Cons.prems(2) e w(1)] Cons.prems(3)
  obtain k where k: "getDist D w = Num k" "k \<le> m + edge_cost e" by auto
  from walkCost_nonneg [OF W(1) w(2)] have nn: "0 \<le> walkCost es" by simp
  have c: "walkCost (e # es) = edge_cost e + walkCost es" by (simp add: walkCost_def)
  show ?case
  proof (cases "w \<in> set U")
    case True
    from tmin [OF True k(1)] k(2) nn c show ?thesis by simp
  next
    case False
    with wV have "w \<in> visited network U" by (simp add: visited_def)
    from Cons.IH [OF w(2) this k(1)] k(2) c show ?thesis by simp
  qed
qed

text \<open>What the search has established when it stops, for a reachable destination.\<close>

lemma search_result:
  assumes wf: "wellFormed network"
    and s: "s \<in> set (nodeIds network)" and t: "t \<in> set (nodeIds network)" and st: "s \<noteq> t"
    and reach: "walk network s es0 t"
    and ml: "mainLoop network t (initState network s) = (D, P, U)"
  shows "\<exists>segs n. treePath network P (insert t (visited network U)) s t segs \<and>
           totalCost segs = Num n \<and> walkCost (map seg_edge segs) = n \<and>
           (\<forall>es. walk network s es t \<longrightarrow> n \<le> walkCost es)"
proof -
  note W = wellFormedD [OF wf]
  from searchInv_mainLoop [OF wf s, of t] ml have inv: "searchInv network s (D, P, U)" by simp
  note I = searchInvD [OF inv]
  note fin = mainLoop_final [OF ml]
  \<comment> \<open>the source has been visited\<close>
  have sS: "s \<in> visited network U"
  proof (rule ccontr)
    assume "s \<notin> visited network U"
    with s have sU: "s \<in> set U" by (simp add: visited_def)
    with I(3) I(10) have "\<forall>k \<in> set U. getDist D k = (if k = s then Num 0 else Infinity)" by auto
    from scan_initial [OF this, of "(Null, Infinity)"] sU
    have fm: "findMin D U = (Str s, Num 0)" by (simp add: findMin_def)
    from sU have "U \<noteq> []" by auto
    with fin fm have "s = [] \<or> s = t" by auto
    with st s W(3) show False by auto
  qed
  \<comment> \<open>the destination has a finite distance, least among the unvisited nodes\<close>
  have "\<exists>n. getDist D t = Num n \<and> (\<forall>w k. w \<in> set U \<longrightarrow> getDist D w = Num k \<longrightarrow> n \<le> k)"
  proof (cases "t \<in> visited network U")
    case True
    from I(7) [OF True] obtain n where n: "getDist D t = Num n" by blast
    have "n \<le> k" if "w \<in> set U" "getDist D w = Num k" for w k
      using I(9) [OF True that(1)] n that(2) by auto
    with n show ?thesis by blast
  next
    case False
    with walk_reaches [OF wf inv reach sS] obtain w k where w: "w \<in> set U" "getDist D w = Num k"
      by blast
    then have ne: "U \<noteq> []" by auto
    with fin obtain cur m where fm: "findMin D U = (cur, m)"
      and stop: "falsy cur \<or> m = Infinity \<or> cur = Str t" by blast
    have "cur \<noteq> Null"
    proof
      assume "cur = Null"
      with fm findMin_Null [of D U m] w show False by auto
    qed
    then obtain c where c: "cur = Str c" by (cases cur) auto
    from findMin_member [OF fm [unfolded c]] I(1) W(3) have cne: "c \<noteq> []" by auto
    from findMin_first_least [OF fm [unfolded c]] have mc: "getDist D c = m"
      and least0: "\<forall>j<length U. \<not> lt (getDist D (U ! j)) m" by auto
    from least0 have least: "\<And>x. x \<in> set U \<Longrightarrow> \<not> lt (getDist D x) m"
      by (auto simp: in_set_conv_nth)
    from least [OF w(1)] w(2) have mfin: "m \<noteq> Infinity" by auto
    with stop c cne have ct: "c = t" by simp
    from I(2) [OF t] mc mfin ct obtain n where n: "getDist D t = Num n" "m = Num n" by auto
    have "n \<le> k'" if "x \<in> set U" "getDist D x = Num k'" for x k'
      using least [OF that(1)] that(2) n(2) by simp
    with n(1) show ?thesis by blast
  qed
  then obtain n where n: "getDist D t = Num n"
    and tmin: "\<And>w k. w \<in> set U \<Longrightarrow> getDist D w = Num k \<Longrightarrow> n \<le> k" by blast
  from searchInv_path [OF wf inv t n] obtain segs where
    segs: "treePath network P (insert t (visited network U)) s t segs" "totalCost segs = Num n"
      "walkCost (map seg_edge segs) = n" by blast
  have "n \<le> walkCost es" if "walk network s es t" for es
    using walk_bound [OF wf inv n tmin that sS I(3)] by simp
  with segs show ?thesis by blast
qed

definition parallelNetwork :: "string Network" where
  "parallelNetwork =
     \<lparr>net_nodes = [mkNode ''A'' 100 100, mkNode ''B'' 300 100],
      net_edges = [mkEdge ''A'' ''B'' 10, mkEdge ''A'' ''B'' 1]\<rparr>"

definition emptyIdNetwork :: "string Network" where
  "emptyIdNetwork =
     \<lparr>net_nodes = [mkNode ''A'' 100 100, mkNode [] 200 100, mkNode ''B'' 300 100],
      net_edges = [mkEdge ''A'' [] 1, mkEdge [] ''B'' 1]\<rparr>"

definition danglingNetwork :: "string Network" where
  "danglingNetwork =
     \<lparr>net_nodes = [mkNode ''A'' 100 100, mkNode ''B'' 300 100],
      net_edges = [mkEdge ''A'' ''X'' 1, mkEdge ''X'' ''B'' 1]\<rparr>"

definition roundingNetwork :: "string Network" where
  "roundingNetwork =
     \<lparr>net_nodes = [mkNode ''A'' 100 100, mkNode ''B'' 300 100, mkNode ''C'' 500 100],
      net_edges = [mkEdge ''A'' ''B'' 9007199254740994, mkEdge ''B'' ''C'' 1,
                   mkEdge ''A'' ''C'' 9007199254740996]\<rparr>"

definition overflowNetwork :: "string Network" where
  "overflowNetwork =
     \<lparr>net_nodes = [mkNode ''A'' 100 100, mkNode ''B'' 300 100, mkNode ''C'' 500 100],
      net_edges = [mkEdge ''A'' ''B'' (2 ^ 1023), mkEdge ''B'' ''C'' (2 ^ 1023)]\<rparr>"

text \<open>
  C1. The claim: on every graph with non-negative integer costs and unique node ids,
  for distinct present ids with the destination reachable, \<open>dijkstra\<close> returns a non-empty
  route of minimum total cost. It fails on each of five graphs, all with unique node ids
  and non-negative integer costs.

  \<^item> Parallel edges. The edge of a segment is the first edge of the graph that joins the
    hop's two nodes, whatever its cost: with two edges between A and B, of costs 10 and 1
    in that order, the search finds distance 1 but the returned segment carries the edge
    of cost 10, so the route costs 10 while the walk over the other edge costs 1.

  \<^item> An empty node id. A node whose id is the empty string stops the search when it is
    selected (\<open>!currentNode\<close> is true for it): with the edges A-'' and ''-B the result
    from A to B is empty.

  \<^item> An edge whose end is not a node. With the nodes A, B and the edges A-X, X-B, B is
    reachable from A over the edges, but X is never unvisited and nothing is relaxed: the
    result is empty.

  \<^item> Rounding. With the costs A-B: \<open>2 ^ 53 + 2\<close>, B-C: 1, A-C: \<open>2 ^ 53 + 4\<close> the sum for
    A-B-C, \<open>2 ^ 53 + 3\<close>, is no double and is rounded to \<open>2 ^ 53 + 4\<close>, which is not less
    than the distance C already has: the result is the edge A-C, of cost \<open>2 ^ 53 + 4\<close>,
    while the walk A-B-C costs \<open>2 ^ 53 + 3\<close>.

  \<^item> Overflow. With the costs A-B: \<open>2 ^ 1023\<close> and B-C: \<open>2 ^ 1023\<close> the sum for A-B-C is
    \<open>Infinity\<close>, which is not less than the distance \<open>Infinity\<close> that C has: the result
    from A to C is empty.
\<close>

theorem C1_counterexample:
  "(nodeIds parallelNetwork = [''A'', ''B''] \<and>
    map edge_cost (net_edges parallelNetwork) = [10, 1] \<and>
    dijkstra parallelNetwork ''A'' ''B'' =
      Some [\<lparr>seg_from = Some (mkNode ''A'' 100 100), seg_to = Some (mkNode ''B'' 300 100),
              seg_edge = mkEdge ''A'' ''B'' 10\<rparr>] \<and>
    map_option totalCost (dijkstra parallelNetwork ''A'' ''B'') = Some (Num 10) \<and>
    walk parallelNetwork ''A'' [mkEdge ''A'' ''B'' 1] ''B'' \<and>
    walkCost [mkEdge ''A'' ''B'' 1] = 1) \<and>
   (nodeIds emptyIdNetwork = [''A'', [], ''B''] \<and>
    dijkstra emptyIdNetwork ''A'' ''B'' = Some [] \<and>
    walk emptyIdNetwork ''A'' [mkEdge ''A'' [] 1, mkEdge [] ''B'' 1] ''B'') \<and>
   (nodeIds danglingNetwork = [''A'', ''B''] \<and>
    dijkstra danglingNetwork ''A'' ''B'' = Some [] \<and>
    walk danglingNetwork ''A'' [mkEdge ''A'' ''X'' 1, mkEdge ''X'' ''B'' 1] ''B'') \<and>
   (nodeIds roundingNetwork = [''A'', ''B'', ''C''] \<and>
    dijkstra roundingNetwork ''A'' ''C'' =
      Some [\<lparr>seg_from = Some (mkNode ''A'' 100 100), seg_to = Some (mkNode ''C'' 500 100),
              seg_edge = mkEdge ''A'' ''C'' 9007199254740996\<rparr>] \<and>
    map_option totalCost (dijkstra roundingNetwork ''A'' ''C'') = Some (Num 9007199254740996) \<and>
    walk roundingNetwork ''A'' [mkEdge ''A'' ''B'' 9007199254740994, mkEdge ''B'' ''C'' 1] ''C'' \<and>
    walkCost [mkEdge ''A'' ''B'' 9007199254740994, mkEdge ''B'' ''C'' 1] = 9007199254740995) \<and>
   (nodeIds overflowNetwork = [''A'', ''B'', ''C''] \<and>
    dijkstra overflowNetwork ''A'' ''C'' = Some [] \<and>
    walk overflowNetwork ''A'' [mkEdge ''A'' ''B'' (2 ^ 1023), mkEdge ''B'' ''C'' (2 ^ 1023)] ''C'')"
  by code_simp

text \<open>
  C1 as amended. Let the graph have unique, non-empty node ids, and edges with
  non-negative integer costs whose two ends are nodes of the graph (the invariant of the
  graph model); let any two edges that join the same two nodes have the same cost (as in
  a graph without parallel edges); and let every edge cost, multiplied by the number of
  nodes, be below \<open>2 ^ 53\<close>, so that every sum of costs along a route is a double. For
  distinct ids \<open>sourceId\<close> and \<open>destId\<close> of the graph with \<open>destId\<close> reachable from
  \<open>sourceId\<close>, \<open>dijkstra\<close> returns a non-empty sequence of segments; the first starts at
  the source node and the last ends at the destination node; consecutive segments share
  an endpoint; every segment carries the first edge, in the graph's edge order, that
  joins its two end nodes; and the total cost that the caller computes is the exact sum
  of the segments' edge costs and the least cost of a walk from source to destination.
\<close>

theorem C1_dijkstra_shortest_path:
  assumes ids: "distinct (nodeIds network)"
    and nonempty: "[] \<notin> set (nodeIds network)"
    and costs: "\<forall>e \<in> set (net_edges network). 0 \<le> edge_cost e"
    and ends: "\<forall>e \<in> set (net_edges network).
                 edge_from e \<in> set (nodeIds network) \<and> edge_to e \<in> set (nodeIds network)"
    and parallel: "\<forall>e \<in> set (net_edges network). \<forall>e' \<in> set (net_edges network).
                 joins (Some (edge_from e)) (Some (edge_to e)) e' \<longrightarrow> edge_cost e' = edge_cost e"
    and bounded: "\<forall>e \<in> set (net_edges network).
                 edge_cost e * int (length (net_nodes network)) < 2 ^ 53"
    and src: "sourceId \<in> set (nodeIds network)" and dst: "destId \<in> set (nodeIds network)"
    and differ: "sourceId \<noteq> destId"
    and reach: "walk network sourceId es0 destId"
  shows "\<exists>path. dijkstra network sourceId destId = Some path \<and> path \<noteq> [] \<and>
           (\<exists>n. seg_from (hd path) = Some n \<and> node_id n = sourceId \<and> n \<in> set (net_nodes network)) \<and>
           (\<exists>n. seg_to (last path) = Some n \<and> node_id n = destId \<and> n \<in> set (net_nodes network)) \<and>
           (\<forall>i. Suc i < length path \<longrightarrow> seg_to (path ! i) = seg_from (path ! Suc i)) \<and>
           (\<forall>seg \<in> set path. seg_edge seg \<in> set (net_edges network) \<and>
              (\<exists>a b. seg_from seg \<in> Some ` set (net_nodes network) \<and> map_option node_id (seg_from seg) = Some a \<and>
                     seg_to seg \<in> Some ` set (net_nodes network) \<and> map_option node_id (seg_to seg) = Some b \<and>
                     joins (Some a) (Some b) (seg_edge seg))) \<and>
           (\<forall>seg \<in> set path. usesFirstEdge network seg) \<and>
           walk network sourceId (map seg_edge path) destId \<and>
           (\<exists>n. totalCost path = Num n \<and> n = walkCost (map seg_edge path) \<and>
              (\<forall>es. walk network sourceId es destId \<longrightarrow> n \<le> walkCost es))"
proof -
  from nonempty costs ends parallel bounded have wf: "wellFormed network"
    unfolding wellFormed_def by blast
  obtain D P U where ml: "mainLoop network destId (initState network sourceId) = (D, P, U)"
    by (cases "mainLoop network destId (initState network sourceId)") auto
  from search_result [OF wf src dst differ reach ml]
  obtain path n where tp: "treePath network P (insert destId (visited network U)) sourceId destId path"
    and tc: "totalCost path = Num n" and wc: "walkCost (map seg_edge path) = n"
    and opt: "\<forall>es. walk network sourceId es destId \<longrightarrow> n \<le> walkCost es"
    by blast
  from treePath_reconstruct [OF tp, of "[]"]
  have rec: "reconstruct network P (Some destId) [] = Some path" by simp
  with ml have run: "dijkstra network sourceId destId = Some path" by (simp add: dijkstra_def)
  from treePath_ends [OF tp] differ have ne: "path \<noteq> []"
    and first: "seg_from (hd path) = findNode network (Some sourceId)"
    and final: "seg_to (last path) = findNode network (Some destId)" by auto
  from findNode_Some [OF src] first
  have a: "\<exists>n. seg_from (hd path) = Some n \<and> node_id n = sourceId \<and> n \<in> set (net_nodes network)"
    by simp
  from findNode_Some [OF dst] final
  have b: "\<exists>n. seg_to (last path) = Some n \<and> node_id n = destId \<and> n \<in> set (net_nodes network)"
    by simp
  have c: "\<forall>i. Suc i < length path \<longrightarrow> seg_to (path ! i) = seg_from (path ! Suc i)"
    using treePath_chain [OF tp] by blast
  have d: "\<forall>seg \<in> set path. seg_edge seg \<in> set (net_edges network) \<and>
              (\<exists>a b. seg_from seg \<in> Some ` set (net_nodes network) \<and> map_option node_id (seg_from seg) = Some a \<and>
                     seg_to seg \<in> Some ` set (net_nodes network) \<and> map_option node_id (seg_to seg) = Some b \<and>
                     joins (Some a) (Some b) (seg_edge seg))"
  proof
    fix seg assume "seg \<in> set path"
    from treePath_members [OF tp this] obtain x y where
      m: "seg_edge seg \<in> set (net_edges network)" "seg_from seg = findNode network (Some x)"
         "seg_to seg = findNode network (Some y)" "joins (Some x) (Some y) (seg_edge seg)"
      by blast
    from m(1,4) ends have "x \<in> set (nodeIds network)" "y \<in> set (nodeIds network)"
      unfolding joins_ends by auto
    from findNode_Some [OF this(1)] findNode_Some [OF this(2)] m
    show "seg_edge seg \<in> set (net_edges network) \<and>
              (\<exists>a b. seg_from seg \<in> Some ` set (net_nodes network) \<and> map_option node_id (seg_from seg) = Some a \<and>
                     seg_to seg \<in> Some ` set (net_nodes network) \<and> map_option node_id (seg_to seg) = Some b \<and>
                     joins (Some a) (Some b) (seg_edge seg))"
      by auto
  qed
  have e: "\<forall>seg \<in> set path. usesFirstEdge network seg"
    using reconstruct_first_edge [OF rec] by simp
  from tc wc opt
  have f: "\<exists>n. totalCost path = Num n \<and> n = walkCost (map seg_edge path) \<and>
              (\<forall>es. walk network sourceId es destId \<longrightarrow> n \<le> walkCost es)"
    by blast
  show ?thesis
    by (intro exI [of _ path] conjI run ne a b c d e treePath_walk [OF tp] f)
qed

theorem C1_witness:
  "distinct (nodeIds getDefaultNetwork) \<and> ''A'' \<in> set (nodeIds getDefaultNetwork) \<and>
   ''F'' \<in> set (nodeIds getDefaultNetwork) \<and>
   walk getDefaultNetwork ''A'' [mkEdge ''A'' ''B'' 7, mkEdge ''B'' ''D'' 10, mkEdge ''D'' ''F'' 15] ''F'' \<and>
   (\<exists>path n. dijkstra getDefaultNetwork ''A'' ''F'' = Some path \<and> path \<noteq> [] \<and>
      walk getDefaultNetwork ''A'' (map seg_edge path) ''F'' \<and> totalCost path = Num n \<and> n \<le> 32)"
proof -
  have ids: "nodeIds getDefaultNetwork = [''A'', ''B'', ''C'', ''D'', ''E'', ''F'']"
    by (simp add: nodeIds_def getDefaultNetwork_def mkNode_def)
  have edges: "net_edges getDefaultNetwork =
        [mkEdge ''A'' ''B'' 7, mkEdge ''A'' ''C'' 9, mkEdge ''B'' ''D'' 10, mkEdge ''B'' ''C'' 10,
         mkEdge ''C'' ''E'' 2, mkEdge ''D'' ''F'' 15, mkEdge ''D'' ''E'' 6, mkEdge ''E'' ''F'' 7]"
    by (simp add: getDefaultNetwork_def)
  have nodes: "length (net_nodes getDefaultNetwork) = 6"
    by (simp add: getDefaultNetwork_def)
  have h1: "distinct (nodeIds getDefaultNetwork)" unfolding ids by simp
  have h2: "[] \<notin> set (nodeIds getDefaultNetwork)" unfolding ids by simp
  have h3: "\<forall>e \<in> set (net_edges getDefaultNetwork). 0 \<le> edge_cost e"
    unfolding edges by (simp add: mkEdge_def)
  have h4: "\<forall>e \<in> set (net_edges getDefaultNetwork).
      edge_from e \<in> set (nodeIds getDefaultNetwork) \<and> edge_to e \<in> set (nodeIds getDefaultNetwork)"
    unfolding edges ids by (simp add: mkEdge_def)
  have h5: "\<forall>e \<in> set (net_edges getDefaultNetwork). \<forall>e' \<in> set (net_edges getDefaultNetwork).
      joins (Some (edge_from e)) (Some (edge_to e)) e' \<longrightarrow> edge_cost e' = edge_cost e"
    unfolding edges by (simp add: mkEdge_def joins_def)
  have h6: "\<forall>e \<in> set (net_edges getDefaultNetwork).
      edge_cost e * int (length (net_nodes getDefaultNetwork)) < 2 ^ 53"
    unfolding edges nodes by (simp add: mkEdge_def)
  have h7: "''A'' \<in> set (nodeIds getDefaultNetwork)" "''F'' \<in> set (nodeIds getDefaultNetwork)"
    "''A'' \<noteq> ''F''" unfolding ids by simp_all
  have h8: "walk getDefaultNetwork ''A'' [mkEdge ''A'' ''B'' 7, mkEdge ''B'' ''D'' 10, mkEdge ''D'' ''F'' 15] ''F''"
    by (simp add: edges mkEdge_def)
  from C1_dijkstra_shortest_path [OF h1 h2 h3 h4 h5 h6 h7 h8]
  obtain path n where p: "dijkstra getDefaultNetwork ''A'' ''F'' = Some path" "path \<noteq> []"
    "walk getDefaultNetwork ''A'' (map seg_edge path) ''F''" "totalCost path = Num n"
    "\<forall>es. walk getDefaultNetwork ''A'' es ''F'' \<longrightarrow> n \<le> walkCost es"
    by blast
  from p(5) h8 have "n \<le> walkCost [mkEdge ''A'' ''B'' 7, mkEdge ''B'' ''D'' 10, mkEdge ''D'' ''F'' 15]"
    by blast
  then have "n \<le> 32" by (simp add: walkCost_def mkEdge_def)
  with p h1 h7 h8 show ?thesis by blast
qed

section \<open>Properties of the generator\<close>

lemma farEnough_iff:
  "farEnough px py node \<longleftrightarrow> (node_x node - px) * (node_x node - px) + (node_y node - py) * (node_y node - py) \<ge> 10000"
proof -
  have "sqrt a \<ge> 100 \<longleftrightarrow> a \<ge> 10000" for a :: real
    using real_le_rsqrt [of 100 a] real_sqrt_le_iff [of 10000 a] by (auto simp: power2_eq_square)
  then show ?thesis by (simp add: farEnough_def minDistance_def Let_def)
qed

lemma placeLoop_result:
  assumes "placeLoop rnd nodes a v px py k = (a', v', px', py', k')" and "a \<le> 100"
  shows "\<exists>n. a' = a + n \<and> a' \<le> 100 \<and> k' = k + 2 * n \<and> (v' \<or> a' = 100) \<and>
           (n = 0 \<longrightarrow> v' = v \<and> px' = px \<and> py' = py) \<and>
           (\<forall>n'. n = Suc n' \<longrightarrow>
              px' = 100 + rnd (k + 2 * n') * 700 \<and> py' = 80 + rnd (k + 2 * n' + 1) * 400 \<and>
              v' = list_all (farEnough px' py') nodes \<and> \<not> v \<and>
              (\<forall>m<n'. \<not> list_all (farEnough (100 + rnd (k + 2 * m) * 700)
                                             (80 + rnd (k + 2 * m + 1) * 400)) nodes))"
  using assms
proof (induction rnd nodes a v px py k rule: placeLoop.induct)
  case (1 rnd nodes attempts validPosition px py k)
  show ?case
  proof (cases "\<not> validPosition \<and> attempts < 100")
    case False
    with "1.prems" show ?thesis
      by (intro exI [of _ 0]) (auto simp: placeLoop.simps [of rnd nodes attempts])
  next
    case True
    let ?x = "100 + rnd k * 700" and ?y = "80 + rnd (k + 1) * 400"
    let ?v = "list_all (farEnough ?x ?y) nodes"
    from True "1.prems"(1) have rec: "placeLoop rnd nodes (attempts + 1) ?v ?x ?y (k + 2) = (a', v', px', py', k')"
      by (simp add: placeLoop.simps [of rnd nodes attempts] Let_def)
    from True have le: "attempts + 1 \<le> 100" by simp
    from "1.IH" [OF True refl refl rec le]
    obtain n1 where ih: "a' = attempts + 1 + n1" "a' \<le> 100" "k' = k + 2 + 2 * n1" "v' \<or> a' = 100"
      "n1 = 0 \<longrightarrow> v' = ?v \<and> px' = ?x \<and> py' = ?y"
      "\<forall>n'. n1 = Suc n' \<longrightarrow>
              px' = 100 + rnd (k + 2 + 2 * n') * 700 \<and> py' = 80 + rnd (k + 2 + 2 * n' + 1) * 400 \<and>
              v' = list_all (farEnough px' py') nodes \<and> \<not> ?v \<and>
              (\<forall>m<n'. \<not> list_all (farEnough (100 + rnd (k + 2 + 2 * m) * 700)
                                             (80 + rnd (k + 2 + 2 * m + 1) * 400)) nodes)"
      by blast
    have last: "px' = 100 + rnd (k + 2 * n1) * 700 \<and> py' = 80 + rnd (k + 2 * n1 + 1) * 400 \<and>
          v' = list_all (farEnough px' py') nodes"
    proof (cases n1)
      case 0
      with ih(5) show ?thesis by simp
    next
      case (Suc n2)
      with ih(6) show ?thesis by (simp add: add.assoc)
    qed
    have earlier: "\<forall>m<n1. \<not> list_all (farEnough (100 + rnd (k + 2 * m) * 700)
                                             (80 + rnd (k + 2 * m + 1) * 400)) nodes"
    proof (intro allI impI)
      fix m assume m: "m < n1"
      then obtain n2 where n2: "n1 = Suc n2" by (cases n1) auto
      show "\<not> list_all (farEnough (100 + rnd (k + 2 * m) * 700) (80 + rnd (k + 2 * m + 1) * 400)) nodes"
      proof (cases m)
        case 0
        with ih(6) n2 show ?thesis by simp
      next
        case (Suc m')
        with m n2 have "m' < n2" by simp
        with ih(6) n2 have "\<not> list_all (farEnough (100 + rnd (k + 2 + 2 * m') * 700)
                                             (80 + rnd (k + 2 + 2 * m' + 1) * 400)) nodes"
          by blast
        with Suc show ?thesis by (simp add: add.assoc)
      qed
    qed
    from ih(1-4) last earlier True show ?thesis
      by (intro exI [of _ "Suc n1"]) simp
  qed
qed

lemma placeNodes_result:
  assumes "placeNodes rnd nodeCount i nodes k = (nodes', k')" and "i \<le> nodeCount"
  shows "\<exists>new. nodes' = nodes @ new \<and> length new = nodeCount - i \<and>
           (\<forall>p < nodeCount - i. node_id (new ! p) = arrayGet labels (int (i + p)) \<and>
              (\<exists>k0 attempts validPosition k1.
                 placeLoop rnd (nodes @ take p new) 0 False 0 0 k0 =
                   (attempts, validPosition, node_x (new ! p), node_y (new ! p), k1)))"
  using assms
proof (induction rnd nodeCount i nodes k rule: placeNodes.induct)
  case (1 rnd nodeCount i nodes k)
  show ?case
  proof (cases "i < nodeCount")
    case False
    with "1.prems" show ?thesis by (simp add: placeNodes.simps [of rnd nodeCount i])
  next
    case True
    obtain attempts validPosition px py k1 where
      pl: "placeLoop rnd nodes 0 False 0 0 k = (attempts, validPosition, px, py, k1)"
      by (cases "placeLoop rnd nodes 0 False 0 0 k") auto
    with True "1.prems"(1) have rec: "placeNodes rnd nodeCount (i + 1) (nodes @ [newNode i px py]) k1 = (nodes', k')"
      by (simp add: placeNodes.simps [of rnd nodeCount i])
    from True have "i + 1 \<le> nodeCount" by simp
    from "1.IH" [OF True pl [symmetric] refl refl refl rec this]
    obtain new where new: "nodes' = (nodes @ [newNode i px py]) @ new" "length new = nodeCount - (i + 1)"
      "\<forall>p < nodeCount - (i + 1). node_id (new ! p) = arrayGet labels (int (i + 1 + p)) \<and>
          (\<exists>k0 attempts validPosition k1.
                 placeLoop rnd ((nodes @ [newNode i px py]) @ take p new) 0 False 0 0 k0 =
                   (attempts, validPosition, node_x (new ! p), node_y (new ! p), k1))"
      by blast
    let ?new = "newNode i px py # new"
    have "\<forall>p < nodeCount - i. node_id (?new ! p) = arrayGet labels (int (i + p)) \<and>
          (\<exists>k0 attempts validPosition k1.
                 placeLoop rnd (nodes @ take p ?new) 0 False 0 0 k0 =
                   (attempts, validPosition, node_x (?new ! p), node_y (?new ! p), k1))"
    proof (intro allI impI)
      fix p assume p: "p < nodeCount - i"
      show "node_id (?new ! p) = arrayGet labels (int (i + p)) \<and>
          (\<exists>k0 attempts validPosition k1.
                 placeLoop rnd (nodes @ take p ?new) 0 False 0 0 k0 =
                   (attempts, validPosition, node_x (?new ! p), node_y (?new ! p), k1))"
      proof (cases p)
        case 0
        with pl show ?thesis by (auto simp: newNode_def)
      next
        case (Suc q)
        with p have "q < nodeCount - (i + 1)" by simp
        with new(3) Suc show ?thesis by simp
      qed
    qed
    with new True show ?thesis
      by (intro exI [of _ ?new]) auto
  qed
qed

lemma floor_scale:
  assumes "0 \<le> r" and "r < 1" and "0 < n"
  shows "0 \<le> \<lfloor>r * real n\<rfloor> \<and> \<lfloor>r * real n\<rfloor> < int n"
proof -
  from assms have "0 \<le> r * real n" by simp
  moreover from assms have "r * real n < real n" by simp
  ultimately show ?thesis by (simp add: floor_less_iff)
qed

lemma randomCost_range:
  assumes "0 \<le> r" and "r < 1"
  shows "5 \<le> randomCost r \<and> randomCost r \<le> 19"
proof -
  from assms have "0 \<le> r * 15" "r * 15 < 15" by simp_all
  then have "0 \<le> \<lfloor>r * 15\<rfloor>" "\<lfloor>r * 15\<rfloor> < 15" by (simp_all add: floor_less_iff)
  then show ?thesis by (simp add: randomCost_def)
qed

lemma spanningTree_result:
  assumes "\<forall>k. 0 \<le> rnd k \<and> rnd k < 1" and "1 \<le> i" and "i \<le> length nodes"
  shows "\<exists>new k'. spanningTree rnd nodes i edges k = Inr (edges @ new, k') \<and>
           length new = length nodes - i \<and> k' = k + 2 * (length nodes - i) \<and>
           (\<forall>p < length nodes - i. \<exists>j < i + p.
               int j = \<lfloor>rnd (k + 2 * p) * real (i + p)\<rfloor> \<and>
               new ! p = mkEdge (node_id (nodes ! (i + p))) (node_id (nodes ! j))
                           (randomCost (rnd (k + 2 * p + 1))))"
  using assms
proof (induction rnd nodes i edges k rule: spanningTree.induct)
  case (1 rnd nodes i edges k)
  show ?case
  proof (cases "i < length nodes")
    case False
    with "1.prems" show ?thesis by (simp add: spanningTree.simps [of rnd nodes i])
  next
    case True
    let ?j = "\<lfloor>rnd k * real i\<rfloor>"
    from floor_scale [of "rnd k" i] "1.prems" have j: "0 \<le> ?j" "?j < int i" by auto
    let ?e = "mkEdge (node_id (nodes ! i)) (node_id (nodes ! nat ?j)) (randomCost (rnd (k + 1)))"
    have gi: "getField node_id (arrayGet nodes (int i)) = Inr (node_id (nodes ! i))"
      using True by (simp add: arrayGet_def getField_def)
    have gj: "getField node_id (arrayGet nodes ?j) = Inr (node_id (nodes ! nat ?j))"
      using True j by (simp add: arrayGet_def getField_def)
    have unfold: "spanningTree rnd nodes i edges k = spanningTree rnd nodes (i + 1) (edges @ [?e]) (k + 2)"
      using True gi gj by (simp add: spanningTree.simps [of rnd nodes i edges k] Let_def)
    from True "1.prems" have pre: "1 \<le> i + 1" "i + 1 \<le> length nodes" by simp_all
    from "1.IH" [OF True refl refl gi gj "1.prems"(1) pre]
    obtain new k' where new: "spanningTree rnd nodes (i + 1) (edges @ [?e]) (k + 2) = Inr ((edges @ [?e]) @ new, k')"
      "length new = length nodes - (i + 1)" "k' = k + 2 + 2 * (length nodes - (i + 1))"
      "\<forall>p < length nodes - (i + 1). \<exists>j < i + 1 + p.
               int j = \<lfloor>rnd (k + 2 + 2 * p) * real (i + 1 + p)\<rfloor> \<and>
               new ! p = mkEdge (node_id (nodes ! (i + 1 + p))) (node_id (nodes ! j))
                           (randomCost (rnd (k + 2 + 2 * p + 1)))"
      by blast
    have each: "\<forall>p < length nodes - i. \<exists>j < i + p.
               int j = \<lfloor>rnd (k + 2 * p) * real (i + p)\<rfloor> \<and>
               (?e # new) ! p = mkEdge (node_id (nodes ! (i + p))) (node_id (nodes ! j))
                           (randomCost (rnd (k + 2 * p + 1)))"
    proof (intro allI impI)
      fix p assume p: "p < length nodes - i"
      show "\<exists>j < i + p. int j = \<lfloor>rnd (k + 2 * p) * real (i + p)\<rfloor> \<and>
               (?e # new) ! p = mkEdge (node_id (nodes ! (i + p))) (node_id (nodes ! j))
                           (randomCost (rnd (k + 2 * p + 1)))"
      proof (cases p)
        case 0
        from j have "nat ?j < i" by linarith
        with 0 j show ?thesis by (intro exI [of _ "nat ?j"]) simp
      next
        case (Suc q)
        with p have "q < length nodes - (i + 1)" by simp
        with new(4) obtain j where "j < i + 1 + q" "int j = \<lfloor>rnd (k + 2 + 2 * q) * real (i + 1 + q)\<rfloor>"
          "new ! q = mkEdge (node_id (nodes ! (i + 1 + q))) (node_id (nodes ! j)) (randomCost (rnd (k + 2 + 2 * q + 1)))"
          by blast
        with Suc show ?thesis by (intro exI [of _ j]) (simp add: add.assoc add.commute add.left_commute)
      qed
    qed
    from new True each unfold show ?thesis
      by (intro exI [of _ "?e # new"] exI [of _ k']) auto
  qed
qed

lemma extraEdges_result:
  assumes "\<forall>k. 0 \<le> rnd k \<and> rnd k < 1" and "nodes \<noteq> []"
  shows "\<exists>new k'. extraEdges rnd nodes additionalEdges i edges k = Inr (edges @ new, k') \<and>
           (\<forall>e \<in> set new. edge_from e \<noteq> edge_to e \<and> 5 \<le> edge_cost e \<and> edge_cost e \<le> 19)"
  using assms
proof (induction rnd nodes additionalEdges i edges k rule: extraEdges.induct)
  case (1 rnd nodes additionalEdges i edges k)
  show ?case
  proof (cases "int i < additionalEdges")
    case False
    then show ?thesis by (simp add: extraEdges.simps [of rnd nodes additionalEdges i])
  next
    case True
    let ?f = "\<lfloor>rnd k * real (length nodes)\<rfloor>" and ?t = "\<lfloor>rnd (k + 1) * real (length nodes)\<rfloor>"
    let ?a = "node_id (nodes ! nat ?f)" and ?b = "node_id (nodes ! nat ?t)"
    from "1.prems" have len: "0 < length nodes" by simp
    from floor_scale [OF _ _ len, of "rnd k"] floor_scale [OF _ _ len, of "rnd (k + 1)"] "1.prems"(1)
    have rng: "0 \<le> ?f" "?f < int (length nodes)" "0 \<le> ?t" "?t < int (length nodes)" by auto
    have gf: "getField node_id (arrayGet nodes ?f) = Inr ?a"
      and gt: "getField node_id (arrayGet nodes ?t) = Inr ?b"
      using rng by (simp_all add: arrayGet_def getField_def)
    let ?e = "mkEdge ?a ?b (randomCost (rnd (k + 2)))"
    consider (push) "?a \<noteq> ?b" "\<not> edgeExists edges ?a ?b"
      | (known) "?a \<noteq> ?b" "\<not> \<not> edgeExists edges ?a ?b" | (loop) "\<not> ?a \<noteq> ?b" by blast
    then show ?thesis
    proof cases
      case push
      have unfold: "extraEdges rnd nodes additionalEdges i edges k =
          extraEdges rnd nodes additionalEdges (i + 1) (edges @ [?e]) (k + 3)"
        using True gf gt push by (simp add: extraEdges.simps [of rnd nodes additionalEdges i edges k] Let_def)
      from "1.IH"(1) [OF True refl refl refl gf gt push "1.prems"]
      obtain new k' where new: "extraEdges rnd nodes additionalEdges (i + 1) (edges @ [?e]) (k + 3) = Inr ((edges @ [?e]) @ new, k')"
        "\<forall>e \<in> set new. edge_from e \<noteq> edge_to e \<and> 5 \<le> edge_cost e \<and> edge_cost e \<le> 19"
        by blast
      have "edge_from ?e \<noteq> edge_to ?e \<and> 5 \<le> edge_cost ?e \<and> edge_cost ?e \<le> 19"
        using push(1) randomCost_range [of "rnd (k + 2)"] "1.prems"(1) by (simp add: mkEdge_def)
      with new unfold show ?thesis
        by (intro exI [of _ "?e # new"] exI [of _ k']) simp
    next
      case known
      have unfold: "extraEdges rnd nodes additionalEdges i edges k =
          extraEdges rnd nodes additionalEdges (i + 1) edges (k + 2)"
        using True gf gt known by (simp add: extraEdges.simps [of rnd nodes additionalEdges i edges k] Let_def)
      from "1.IH"(2) [OF True refl refl refl gf gt known "1.prems"] unfold show ?thesis by simp
    next
      case loop
      have unfold: "extraEdges rnd nodes additionalEdges i edges k =
          extraEdges rnd nodes additionalEdges (i + 1) edges (k + 2)"
        using True gf gt loop by (simp add: extraEdges.simps [of rnd nodes additionalEdges i edges k] Let_def)
      from "1.IH"(3) [OF True refl refl refl gf gt loop "1.prems"] unfold show ?thesis by simp
    qed
  qed
qed

text \<open>Connectivity: every node's id is joined to every other node's id by a chain of edges,
  each traversable in either direction.\<close>

definition adjacent :: "'i NetworkEdge list \<Rightarrow> ('i \<times> 'i) set" where
  "adjacent es = {(a, b). \<exists>e \<in> set es. (edge_from e = a \<and> edge_to e = b) \<or> (edge_to e = a \<and> edge_from e = b)}"

definition connected :: "'i Network \<Rightarrow> bool" where
  "connected network =
     (\<forall>n \<in> set (net_nodes network). \<forall>m \<in> set (net_nodes network).
        (node_id n, node_id m) \<in> (adjacent (net_edges network))\<^sup>*)"

lemma adjacent_sym: "sym (adjacent es)"
  by (auto simp: adjacent_def sym_def)

lemma tree_connected:
  assumes tree: "\<forall>i. 1 \<le> i \<and> i < length ns \<longrightarrow>
      (\<exists>j<i. \<exists>e \<in> set es. edge_from e = node_id (ns ! i) \<and> edge_to e = node_id (ns ! j))"
  shows "connected \<lparr>net_nodes = ns, net_edges = es\<rparr>"
proof -
  have root: "i < length ns \<Longrightarrow> (node_id (ns ! i), node_id (ns ! 0)) \<in> (adjacent es)\<^sup>*" for i
  proof (induction i rule: less_induct)
    case (less i)
    show ?case
    proof (cases "i = 0")
      case True
      then show ?thesis by simp
    next
      case False
      with less.prems tree obtain j e where j: "j < i" "e \<in> set es"
        "edge_from e = node_id (ns ! i)" "edge_to e = node_id (ns ! j)"
        by (metis One_nat_def Suc_leI neq0_conv)
      then have "(node_id (ns ! i), node_id (ns ! j)) \<in> adjacent es"
        by (auto simp: adjacent_def)
      moreover from less.IH [OF j(1)] j(1) less.prems
      have "(node_id (ns ! j), node_id (ns ! 0)) \<in> (adjacent es)\<^sup>*" by simp
      ultimately show ?thesis by (rule converse_rtrancl_into_rtrancl)
    qed
  qed
  have rev_reach: "(a, b) \<in> (adjacent es)\<^sup>* \<Longrightarrow> (b, a) \<in> (adjacent es)\<^sup>*" for a b
    using adjacent_sym [of es] by (metis sym_rtrancl symD)
  show ?thesis
    unfolding connected_def
  proof (intro ballI)
    fix n m assume "n \<in> set (net_nodes \<lparr>net_nodes = ns, net_edges = es\<rparr>)"
      and "m \<in> set (net_nodes \<lparr>net_nodes = ns, net_edges = es\<rparr>)"
    then obtain i j where "i < length ns" "n = ns ! i" "j < length ns" "m = ns ! j"
      by (auto simp: in_set_conv_nth)
    with root [of i] rev_reach [OF root [of j]]
    show "(node_id n, node_id m) \<in> (adjacent (net_edges \<lparr>net_nodes = ns, net_edges = es\<rparr>))\<^sup>*"
      by simp
  qed
qed

text \<open>The structure of a generated network, stage by stage.\<close>

lemma generateRandomNetwork_structure:
  assumes rng: "\<forall>k. 0 \<le> rnd k \<and> rnd k < 1" and n: "1 \<le> nodeCount"
  shows "\<exists>ns k1 tree k2 more k3.
           placeNodes rnd nodeCount 0 [] 0 = (ns, k1) \<and>
           spanningTree rnd ns 1 [] k1 = Inr (tree, k2) \<and>
           extraEdges rnd ns (\<lfloor>rnd k2 * 3\<rfloor> + 2) 0 tree (k2 + 1) = Inr (tree @ more, k3) \<and>
           generateRandomNetwork rnd nodeCount = Inr \<lparr>net_nodes = ns, net_edges = tree @ more\<rparr> \<and>
           length ns = nodeCount \<and>
           (\<forall>i < nodeCount. node_id (ns ! i) = arrayGet labels (int i) \<and>
              (\<exists>k0 attempts validPosition k1.
                 placeLoop rnd (take i ns) 0 False 0 0 k0 =
                   (attempts, validPosition, node_x (ns ! i), node_y (ns ! i), k1))) \<and>
           length tree = nodeCount - 1 \<and>
           (\<forall>i. 1 \<le> i \<and> i < nodeCount \<longrightarrow>
              (\<exists>j<i. int j = \<lfloor>rnd (k1 + 2 * (i - 1)) * real i\<rfloor> \<and>
                 tree ! (i - 1) = mkEdge (node_id (ns ! i)) (node_id (ns ! j))
                                    (randomCost (rnd (k1 + 2 * (i - 1) + 1))))) \<and>
           (\<forall>e \<in> set more. edge_from e \<noteq> edge_to e \<and> 5 \<le> edge_cost e \<and> edge_cost e \<le> 19)"
proof -
  obtain ns k1 where pn: "placeNodes rnd nodeCount 0 [] 0 = (ns, k1)"
    by (cases "placeNodes rnd nodeCount 0 [] 0") auto
  from placeNodes_result [OF pn] have ns: "length ns = nodeCount"
    "\<forall>i < nodeCount. node_id (ns ! i) = arrayGet labels (int i) \<and>
              (\<exists>k0 attempts validPosition k1.
                 placeLoop rnd (take i ns) 0 False 0 0 k0 =
                   (attempts, validPosition, node_x (ns ! i), node_y (ns ! i), k1))"
    by auto
  from n ns(1) have ne: "ns \<noteq> []" "1 \<le> length ns" by auto
  from spanningTree_result [where rnd = rnd and i = 1 and nodes = ns and edges = "[]" and k = k1, OF rng _ ne(2)]
  obtain tree k2 where st: "spanningTree rnd ns 1 [] k1 = Inr (tree, k2)" "length tree = length ns - 1"
    "\<forall>p < length ns - 1. \<exists>j < 1 + p.
               int j = \<lfloor>rnd (k1 + 2 * p) * real (1 + p)\<rfloor> \<and>
               tree ! p = mkEdge (node_id (ns ! (1 + p))) (node_id (ns ! j)) (randomCost (rnd (k1 + 2 * p + 1)))"
    by auto
  from extraEdges_result [where rnd = rnd and nodes = ns and additionalEdges = "\<lfloor>rnd k2 * 3\<rfloor> + 2" and i = 0 and edges = tree and k = "k2 + 1", OF rng ne(1)]
  obtain more k3 where ee: "extraEdges rnd ns (\<lfloor>rnd k2 * 3\<rfloor> + 2) 0 tree (k2 + 1) = Inr (tree @ more, k3)"
    "\<forall>e \<in> set more. edge_from e \<noteq> edge_to e \<and> 5 \<le> edge_cost e \<and> edge_cost e \<le> 19"
    by blast
  have gen: "generateRandomNetwork rnd nodeCount = Inr \<lparr>net_nodes = ns, net_edges = tree @ more\<rparr>"
    using pn st(1) ee(1) by (simp add: generateRandomNetwork_def Let_def)
  have each: "\<forall>i. 1 \<le> i \<and> i < nodeCount \<longrightarrow>
              (\<exists>j<i. int j = \<lfloor>rnd (k1 + 2 * (i - 1)) * real i\<rfloor> \<and>
                 tree ! (i - 1) = mkEdge (node_id (ns ! i)) (node_id (ns ! j))
                                    (randomCost (rnd (k1 + 2 * (i - 1) + 1))))"
  proof (intro allI impI)
    fix i assume i: "1 \<le> i \<and> i < nodeCount"
    then have "i - 1 < length ns - 1" "1 + (i - 1) = i" using ns(1) by auto
    with st(3) [rule_format, of "i - 1"]
    show "\<exists>j<i. int j = \<lfloor>rnd (k1 + 2 * (i - 1)) * real i\<rfloor> \<and>
                 tree ! (i - 1) = mkEdge (node_id (ns ! i)) (node_id (ns ! j))
                                    (randomCost (rnd (k1 + 2 * (i - 1) + 1)))"
      by simp
  qed
  from pn st(1,2) ee gen ns each show ?thesis by blast
qed

lemma generateRandomNetwork_no_nodes:
  assumes "\<forall>k. 0 \<le> rnd k \<and> rnd k < 1"
  shows "generateRandomNetwork rnd 0 = Inl TypeError"
proof -
  from assms have "0 \<le> rnd 0 * 3" by simp
  then have "0 \<le> \<lfloor>rnd 0 * 3\<rfloor>" by simp
  then have "int 0 < \<lfloor>rnd 0 * 3\<rfloor> + 2" by linarith
  then have "extraEdges rnd [] (\<lfloor>rnd 0 * 3\<rfloor> + 2) 0 [] 1 = Inl TypeError"
    by (simp add: extraEdges.simps [of rnd "[]" "\<lfloor>rnd 0 * 3\<rfloor> + 2" 0 "[]" 1] arrayGet_def getField_def)
  then show ?thesis
    by (simp add: generateRandomNetwork_def Let_def)
qed

lemma labels_differ:
  assumes "j < i" and "i < 11"
  shows "arrayGet labels (int i) \<noteq> arrayGet labels (int j)"
proof (cases "i < 10")
  case False
  with assms show ?thesis by (simp add: arrayGet_def labels_def)
next
  case True
  have "distinct labels" by (simp add: labels_def)
  moreover from True assms have "i < length labels" "j < length labels" "i \<noteq> j"
    by (simp_all add: labels_def)
  ultimately have "labels ! i \<noteq> labels ! j" by (simp add: nth_eq_iff_index_eq)
  with True assms show ?thesis by (simp add: arrayGet_def labels_def)
qed

definition rndZero :: "nat \<Rightarrow> real" where
  "rndZero k = 0"

definition rndHigh :: "nat \<Rightarrow> real" where
  "rndHigh k = 19 / 20"

definition nodeTotal :: "js_error + 'i Network \<Rightarrow> nat option" where
  "nodeTotal r = (case r of Inl err \<Rightarrow> None | Inr g \<Rightarrow> Some (length (net_nodes g)))"

definition isSelfLoop :: "'i NetworkEdge \<Rightarrow> bool" where
  "isSelfLoop e = (edge_from e = edge_to e)"

definition hasSelfLoop :: "js_error + 'i Network \<Rightarrow> bool" where
  "hasSelfLoop r = (case r of Inl err \<Rightarrow> False | Inr g \<Rightarrow> list_ex isSelfLoop (net_edges g))"

text \<open>
  C4. The claim: for every nodeCount \<ge> 1 the graph has exactly nodeCount nodes, with
  nodeCount capped at the size of the label alphabet. The generator has no cap: asked for
  11 nodes it returns 11, not 10.
\<close>

theorem C4_counterexample:
  "nodeTotal (generateRandomNetwork rndZero 11) = Some 11 \<and> min 11 (length labels) = 10"
proof -
  have "\<forall>k. 0 \<le> rndZero k \<and> rndZero k < 1" by (simp add: rndZero_def)
  from generateRandomNetwork_structure [OF this, of 11]
  show ?thesis by (auto simp: nodeTotal_def labels_def)
qed

text \<open>
  C4 as amended. For every nodeCount \<ge> 1 (and every run of the random source, whose
  values lie in [0,1)) \<open>generateRandomNetwork\<close> returns a graph with exactly nodeCount
  nodes, uncapped, node i carrying the id \<open>labels[i]\<close>; the graph is connected; and the
  spanning-tree step contributes exactly nodeCount - 1 edges, the first edges of the graph,
  edge i - 1 going from node i to a node of smaller index, for every i from 1 to
  nodeCount - 1.
\<close>

theorem C4_generated_network_connected:
  assumes "\<forall>k. 0 \<le> rnd k \<and> rnd k < 1" and "1 \<le> nodeCount"
  shows "\<exists>g tree more k1 k2.
           generateRandomNetwork rnd nodeCount = Inr g \<and>
           length (net_nodes g) = nodeCount \<and>
           (\<forall>i < nodeCount. node_id (net_nodes g ! i) = arrayGet labels (int i)) \<and>
           connected g \<and>
           spanningTree rnd (net_nodes g) 1 [] k1 = Inr (tree, k2) \<and>
           length tree = nodeCount - 1 \<and>
           net_edges g = tree @ more \<and>
           (\<forall>i. 1 \<le> i \<and> i < nodeCount \<longrightarrow>
              (\<exists>j<i. edge_from (tree ! (i - 1)) = node_id (net_nodes g ! i) \<and>
                      edge_to (tree ! (i - 1)) = node_id (net_nodes g ! j)))"
proof -
  from generateRandomNetwork_structure [OF assms]
  obtain ns k1 tree k2 more where s:
    "spanningTree rnd ns 1 [] k1 = Inr (tree, k2)"
    "generateRandomNetwork rnd nodeCount = Inr \<lparr>net_nodes = ns, net_edges = tree @ more\<rparr>"
    "length ns = nodeCount"
    "\<forall>i < nodeCount. node_id (ns ! i) = arrayGet labels (int i)"
    "length tree = nodeCount - 1"
    "\<forall>i. 1 \<le> i \<and> i < nodeCount \<longrightarrow>
              (\<exists>j<i. int j = \<lfloor>rnd (k1 + 2 * (i - 1)) * real i\<rfloor> \<and>
                 tree ! (i - 1) = mkEdge (node_id (ns ! i)) (node_id (ns ! j))
                                    (randomCost (rnd (k1 + 2 * (i - 1) + 1))))"
    by blast
  have each: "\<forall>i. 1 \<le> i \<and> i < nodeCount \<longrightarrow>
              (\<exists>j<i. edge_from (tree ! (i - 1)) = node_id (ns ! i) \<and>
                      edge_to (tree ! (i - 1)) = node_id (ns ! j))"
  proof (intro allI impI)
    fix i assume i: "1 \<le> i \<and> i < nodeCount"
    with s(6) obtain j where "j < i" "tree ! (i - 1) = mkEdge (node_id (ns ! i)) (node_id (ns ! j))
                                    (randomCost (rnd (k1 + 2 * (i - 1) + 1)))"
      by blast
    then show "\<exists>j<i. edge_from (tree ! (i - 1)) = node_id (ns ! i) \<and>
                      edge_to (tree ! (i - 1)) = node_id (ns ! j)"
      by (intro exI [of _ j]) (simp add: mkEdge_def)
  qed
  have "\<forall>i. 1 \<le> i \<and> i < length ns \<longrightarrow>
      (\<exists>j<i. \<exists>e \<in> set (tree @ more). edge_from e = node_id (ns ! i) \<and> edge_to e = node_id (ns ! j))"
  proof (intro allI impI)
    fix i assume i: "1 \<le> i \<and> i < length ns"
    with each s(3) obtain j where j: "j < i" "edge_from (tree ! (i - 1)) = node_id (ns ! i)"
      "edge_to (tree ! (i - 1)) = node_id (ns ! j)"
      by blast
    from i s(3,5) have "i - 1 < length tree" by linarith
    then have "tree ! (i - 1) \<in> set (tree @ more)" using nth_mem [of "i - 1" tree] by simp
    with j show "\<exists>j<i. \<exists>e \<in> set (tree @ more). edge_from e = node_id (ns ! i) \<and> edge_to e = node_id (ns ! j)"
      by blast
  qed
  then have "connected \<lparr>net_nodes = ns, net_edges = tree @ more\<rparr>" by (rule tree_connected)
  with s(1-5) each show ?thesis
    by (intro exI [of _ "\<lparr>net_nodes = ns, net_edges = tree @ more\<rparr>"] exI [of _ tree] exI [of _ more]
        exI [of _ k1] exI [of _ k2]) simp
qed

theorem C4_witness:
  "(\<forall>k. 0 \<le> rndZero k \<and> rndZero k < 1) \<and> (1::nat) \<le> 3 \<and>
   (\<exists>g tree more k1 k2.
           generateRandomNetwork rndZero 3 = Inr g \<and>
           length (net_nodes g) = 3 \<and>
           connected g \<and>
           spanningTree rndZero (net_nodes g) 1 [] k1 = Inr (tree, k2) \<and>
           length tree = 2 \<and>
           net_edges g = tree @ more)"
proof -
  have h: "\<forall>k. 0 \<le> rndZero k \<and> rndZero k < 1" by (simp add: rndZero_def)
  have n: "(1::nat) \<le> 3" by simp
  from C4_generated_network_connected [OF h n] obtain g tree more k1 k2 where
    "generateRandomNetwork rndZero 3 = Inr g" "length (net_nodes g) = 3" "connected g"
    "spanningTree rndZero (net_nodes g) 1 [] k1 = Inr (tree, k2)" "length tree = 3 - 1"
    "net_edges g = tree @ more"
    by blast
  with h show ?thesis by (intro conjI exI [of _ g] exI [of _ tree] exI [of _ more] exI [of _ k1] exI [of _ k2]) simp_all
qed

text \<open>
  C8. The claim: every edge of a generated graph has a cost between 5 and 19 and joins two
  different ids. With 12 nodes the nodes of index 10 and 11 both carry the id \<open>undefined\<close>,
  and when the spanning-tree step draws 10 for node 11 their edge is a self-loop.
\<close>

theorem C8_counterexample:
  "hasSelfLoop (generateRandomNetwork rndHigh 12)"
proof -
  have h: "\<forall>k. 0 \<le> rndHigh k \<and> rndHigh k < 1" by (simp add: rndHigh_def)
  from generateRandomNetwork_structure [OF h, of 12]
  obtain ns k1 tree more where s:
    "generateRandomNetwork rndHigh 12 = Inr \<lparr>net_nodes = ns, net_edges = tree @ more\<rparr>"
    "\<forall>i < 12. node_id (ns ! i) = arrayGet labels (int i)"
    "length tree = 12 - 1"
    "\<forall>i. 1 \<le> i \<and> i < 12 \<longrightarrow>
              (\<exists>j<i. int j = \<lfloor>rndHigh (k1 + 2 * (i - 1)) * real i\<rfloor> \<and>
                 tree ! (i - 1) = mkEdge (node_id (ns ! i)) (node_id (ns ! j))
                                    (randomCost (rndHigh (k1 + 2 * (i - 1) + 1))))"
    by auto
  from s(4) [rule_format, of 11] obtain j where j: "int j = \<lfloor>rndHigh (k1 + 2 * (11 - 1)) * real (11::nat)\<rfloor>"
    "tree ! (11 - 1) = mkEdge (node_id (ns ! 11)) (node_id (ns ! j)) (randomCost (rndHigh (k1 + 2 * (11 - 1) + 1)))"
    by auto
  have "\<lfloor>(19 / 20 :: real) * 11\<rfloor> = 10" by (simp add: floor_eq_iff)
  with j(1) have "j = 10" by (simp add: rndHigh_def)
  with j(2) s(2) have "isSelfLoop (tree ! 10)"
    by (simp add: isSelfLoop_def mkEdge_def arrayGet_def labels_def)
  moreover from s(3) have "tree ! 10 \<in> set (tree @ more)" by simp
  ultimately have "list_ex isSelfLoop (tree @ more)" unfolding list_ex_iff by blast
  with s(1) show ?thesis by (simp add: hasSelfLoop_def)
qed

text \<open>
  C8 as amended. For random values in [0,1), every edge of a graph returned by
  \<open>generateRandomNetwork\<close> has an integer cost c with 5 \<le> c \<le> 19; and when
  nodeCount \<le> 11, so that at most one node is beyond the ten labels, no edge is a
  self-loop: its \<open>from\<close> id differs from its \<open>to\<close> id.
\<close>

theorem C8_edge_costs_and_self_loops:
  assumes "\<forall>k. 0 \<le> rnd k \<and> rnd k < 1" and "generateRandomNetwork rnd nodeCount = Inr g"
  shows "\<forall>e \<in> set (net_edges g). 5 \<le> edge_cost e \<and> edge_cost e \<le> 19 \<and>
           (nodeCount \<le> 11 \<longrightarrow> edge_from e \<noteq> edge_to e)"
proof -
  from assms generateRandomNetwork_no_nodes [OF assms(1)] have n: "1 \<le> nodeCount"
    by (cases nodeCount) auto
  from generateRandomNetwork_structure [OF assms(1) n] assms(2)
  obtain ns k1 tree more where s:
    "g = \<lparr>net_nodes = ns, net_edges = tree @ more\<rparr>"
    "\<forall>i < nodeCount. node_id (ns ! i) = arrayGet labels (int i)"
    "length tree = nodeCount - 1"
    "\<forall>i. 1 \<le> i \<and> i < nodeCount \<longrightarrow>
              (\<exists>j<i. int j = \<lfloor>rnd (k1 + 2 * (i - 1)) * real i\<rfloor> \<and>
                 tree ! (i - 1) = mkEdge (node_id (ns ! i)) (node_id (ns ! j))
                                    (randomCost (rnd (k1 + 2 * (i - 1) + 1))))"
    "\<forall>e \<in> set more. edge_from e \<noteq> edge_to e \<and> 5 \<le> edge_cost e \<and> edge_cost e \<le> 19"
    by auto
  have "5 \<le> edge_cost e \<and> edge_cost e \<le> 19 \<and> (nodeCount \<le> 11 \<longrightarrow> edge_from e \<noteq> edge_to e)"
    if e: "e \<in> set tree" for e
  proof -
    from e obtain p where p: "p < length tree" "e = tree ! p" by (auto simp: in_set_conv_nth)
    with s(3) have i: "1 \<le> p + 1 \<and> p + 1 < nodeCount" by simp
    from s(4) [rule_format, OF i] p(2) obtain j where j: "j < p + 1"
      "e = mkEdge (node_id (ns ! (p + 1))) (node_id (ns ! j)) (randomCost (rnd (k1 + 2 * p + 1)))"
      by auto
    from i j(1) s(2) have ids: "node_id (ns ! (p + 1)) = arrayGet labels (int (p + 1))"
      "node_id (ns ! j) = arrayGet labels (int j)" by auto
    have "nodeCount \<le> 11 \<longrightarrow> edge_from e \<noteq> edge_to e"
    proof
      assume "nodeCount \<le> 11"
      with i have "p + 1 < 11" by simp
      from labels_differ [OF j(1) this] ids j(2) show "edge_from e \<noteq> edge_to e"
        by (simp add: mkEdge_def)
    qed
    with randomCost_range [of "rnd (k1 + 2 * p + 1)"] assms(1) j(2) show ?thesis
      by (simp add: mkEdge_def)
  qed
  with s(1,5) show ?thesis by auto
qed

theorem C8_witness:
  "(\<forall>k. 0 \<le> rndZero k \<and> rndZero k < 1) \<and>
   generateRandomNetwork rndZero 2 =
     Inr \<lparr>net_nodes = [newNode 0 100 80, newNode 1 100 80],
          net_edges = [mkEdge (Some ''B'') (Some ''A'') 5]\<rparr> \<and>
   list_all (\<lambda>e. 5 \<le> edge_cost e \<and> edge_cost e \<le> 19 \<and> edge_from e \<noteq> edge_to e)
     [mkEdge (Some ''B'') (Some ''A'') 5]"
proof -
  have h: "\<forall>k. 0 \<le> rndZero k \<and> rndZero k < 1" by (simp add: rndZero_def)
  have g: "generateRandomNetwork rndZero 2 =
     Inr \<lparr>net_nodes = [newNode 0 100 80, newNode 1 100 80],
          net_edges = [mkEdge (Some ''B'') (Some ''A'') 5]\<rparr>"
    by (simp add: generateRandomNetwork_def arrayGet_def getField_def rndZero_def farEnough_iff
        newNode_def labels_def randomCost_def mkEdge_def edgeExists_def)
  from C8_edge_costs_and_self_loops [OF h g] h g show ?thesis by simp
qed

text \<open>
  C9. The claim: node placement always terminates and never fails, and so
  \<open>generateRandomNetwork\<close> as a whole always returns a graph. With no node to pick from
  (nodeCount = 0) the additional-edge step reads \<open>.id\<close> of \<open>undefined\<close> and throws.
\<close>

theorem C9_counterexample:
  "generateRandomNetwork rndZero 0 = Inl TypeError"
proof -
  have "\<forall>k. 0 \<le> rndZero k \<and> rndZero k < 1" by (simp add: rndZero_def)
  then show ?thesis by (rule generateRandomNetwork_no_nodes)
qed

text \<open>
  C9 as amended. The placement loop of a node returns (it is a total function) after
  drawing at least 1 and at most 100 candidate positions, two random numbers each; the
  position it returns is the last one drawn, whether or not it is valid; a candidate
  is valid when it is at distance \<ge> 100 from every node placed so far; no candidate before
  the last was valid; and if fewer than 100 were drawn the last one is valid. For every
  nodeCount \<ge> 1 and random values in [0,1), \<open>generateRandomNetwork\<close> returns a graph,
  never an error, and each of its nodes stands where the placement loop, run on the nodes
  before it, put it.
\<close>

theorem C9_bounded_placement:
  "(placeLoop rnd nodes 0 False 0 0 k = (attempts, validPosition, px, py, k') \<longrightarrow>
      1 \<le> attempts \<and> attempts \<le> 100 \<and> k' = k + 2 * attempts \<and>
      px = 100 + rnd (k + 2 * (attempts - 1)) * 700 \<and>
      py = 80 + rnd (k + 2 * (attempts - 1) + 1) * 400 \<and>
      validPosition = list_all (farEnough px py) nodes \<and>
      (attempts < 100 \<longrightarrow> validPosition) \<and>
      (\<forall>m. m + 1 < attempts \<longrightarrow>
         \<not> list_all (farEnough (100 + rnd (k + 2 * m) * 700) (80 + rnd (k + 2 * m + 1) * 400)) nodes)) \<and>
   ((\<forall>k. 0 \<le> rnd k \<and> rnd k < 1) \<and> 1 \<le> nodeCount \<longrightarrow>
      (\<exists>g. generateRandomNetwork rnd nodeCount = Inr g \<and> length (net_nodes g) = nodeCount \<and>
         (\<forall>i < nodeCount. \<exists>k0 a v k1.
            placeLoop rnd (take i (net_nodes g)) 0 False 0 0 k0 =
              (a, v, node_x (net_nodes g ! i), node_y (net_nodes g ! i), k1))))"
proof (intro conjI impI)
  assume pl: "placeLoop rnd nodes 0 False 0 0 k = (attempts, validPosition, px, py, k')"
  from placeLoop_result [OF pl] obtain n where n: "attempts = n" "attempts \<le> 100" "k' = k + 2 * n"
    "validPosition \<or> attempts = 100"
    "n = 0 \<longrightarrow> validPosition = False"
    "\<forall>n'. n = Suc n' \<longrightarrow>
              px = 100 + rnd (k + 2 * n') * 700 \<and> py = 80 + rnd (k + 2 * n' + 1) * 400 \<and>
              validPosition = list_all (farEnough px py) nodes \<and>
              (\<forall>m<n'. \<not> list_all (farEnough (100 + rnd (k + 2 * m) * 700)
                                             (80 + rnd (k + 2 * m + 1) * 400)) nodes)"
    by auto
  from n(1,4,5) obtain n' where n': "n = Suc n'" by (cases n) auto
  with n(1) have a: "attempts - 1 = n'" "attempts = Suc n'" by simp_all
  from n(1) n' show "1 \<le> attempts" by simp
  from n(2) show "attempts \<le> 100" .
  from n(1,3) show "k' = k + 2 * attempts" by simp
  from n(6) n' a show "px = 100 + rnd (k + 2 * (attempts - 1)) * 700" by simp
  from n(6) n' a show "py = 80 + rnd (k + 2 * (attempts - 1) + 1) * 400" by simp
  from n(6) n' show "validPosition = list_all (farEnough px py) nodes" by simp
  from n(4) show "validPosition" if "attempts < 100" using that by auto
  from n(6) n' a show "\<forall>m. m + 1 < attempts \<longrightarrow>
         \<not> list_all (farEnough (100 + rnd (k + 2 * m) * 700) (80 + rnd (k + 2 * m + 1) * 400)) nodes"
    by simp
next
  assume h: "(\<forall>k. 0 \<le> rnd k \<and> rnd k < 1) \<and> 1 \<le> nodeCount"
  then have rng: "\<forall>k. 0 \<le> rnd k \<and> rnd k < 1" and n: "1 \<le> nodeCount" by simp_all
  from generateRandomNetwork_structure [OF rng n]
  obtain ns tree more where s:
    "generateRandomNetwork rnd nodeCount = Inr \<lparr>net_nodes = ns, net_edges = tree @ more\<rparr>"
    "length ns = nodeCount"
    "\<forall>i < nodeCount. node_id (ns ! i) = arrayGet labels (int i) \<and>
              (\<exists>k0 attempts validPosition k1.
                 placeLoop rnd (take i ns) 0 False 0 0 k0 =
                   (attempts, validPosition, node_x (ns ! i), node_y (ns ! i), k1))"
    by blast
  then show "\<exists>g. generateRandomNetwork rnd nodeCount = Inr g \<and> length (net_nodes g) = nodeCount \<and>
         (\<forall>i < nodeCount. \<exists>k0 a v k1.
            placeLoop rnd (take i (net_nodes g)) 0 False 0 0 k0 =
              (a, v, node_x (net_nodes g ! i), node_y (net_nodes g ! i), k1))"
    by (intro exI [of _ "\<lparr>net_nodes = ns, net_edges = tree @ more\<rparr>"]) simp
qed

lemma placeLoop_exhausted:
  "placeLoop rndZero [newNode 0 100 80] 0 False 0 0 2 = (100, False, 100, 80, 202)"
  by (simp add: rndZero_def farEnough_iff newNode_def)

theorem C9_witness:
  "placeLoop rndZero [newNode 0 100 80] 0 False 0 0 2 = (100, False, 100, 80, 202) \<and>
   \<not> list_all (farEnough 100 80) [newNode 0 100 80] \<and>
   (\<forall>k. 0 \<le> rndZero k \<and> rndZero k < 1) \<and> (1::nat) \<le> 2 \<and>
   (\<exists>g. generateRandomNetwork rndZero 2 = Inr g \<and> length (net_nodes g) = 2)"
proof -
  have h: "(\<forall>k. 0 \<le> rndZero k \<and> rndZero k < 1) \<and> (1::nat) \<le> 2" by (simp add: rndZero_def)
  note t = C9_bounded_placement [of rndZero "[newNode 0 100 80]" 2 100 False 100 80 202 2]
  from t placeLoop_exhausted have "False = list_all (farEnough 100 80) [newNode 0 100 80]" by blast
  moreover from t h have "\<exists>g. generateRandomNetwork rndZero 2 = Inr g \<and> length (net_nodes g) = 2"
    by blast
  ultimately show ?thesis using placeLoop_exhausted h by simp
qed

section \<open>Properties of the animation\<close>

text \<open>The readings up to and including the first one at which the duration has elapsed.\<close>

fun ticksOfRun :: "int \<Rightarrow> int list \<Rightarrow> int list" where
  "ticksOfRun startTime [] = []"
| "ticksOfRun startTime (now # later) =
     (if now - startTime \<ge> duration then [now] else now # ticksOfRun startTime later)"

fun renders :: "effect list \<Rightarrow> real list" where
  "renders [] = []"
| "renders (Render p # es) = p # renders es"
| "renders (_ # es) = renders es"

definition completions :: "effect list \<Rightarrow> nat" where
  "completions es = length (filter (\<lambda>e. e = Complete) es)"

definition requests :: "effect list \<Rightarrow> nat" where
  "requests es = length (filter (\<lambda>e. e = RequestFrame) es)"

lemma renders_append: "renders (xs @ ys) = renders xs @ renders ys"
  by (induction xs rule: renders.induct) auto

lemma progress_lt_1: "progressAt startTime now < 1 \<longleftrightarrow> now - startTime < duration"
proof -
  have "real_of_int (now - startTime) / 2500 < 1 \<longleftrightarrow> real_of_int (now - startTime) < 2500"
    by (simp add: divide_less_eq)
  also have "\<dots> \<longleftrightarrow> now - startTime < 2500" by linarith
  finally show ?thesis by (simp add: progressAt_def duration_def min_less_iff_disj)
qed

lemma runFrames_effects:
  assumes "animationRef st"
  shows "renders (effects (runFrames startTime readings st)) =
           renders (effects st) @ map (progressAt startTime) (ticksOfRun startTime readings)
       \<and> completions (effects (runFrames startTime readings st)) =
           completions (effects st) + (if \<exists>now \<in> set readings. now - startTime \<ge> duration then 1 else 0)
       \<and> requests (effects (runFrames startTime readings st)) =
           requests (effects st) + length (filter (\<lambda>now. now - startTime < duration) (ticksOfRun startTime readings))
       \<and> animationRef (runFrames startTime readings st) = (\<not> (\<exists>now \<in> set readings. now - startTime \<ge> duration))
       \<and> ((\<exists>now \<in> set readings. now - startTime \<ge> duration) \<longrightarrow>
             \<not> isAnimating (runFrames startTime readings st) \<and> isComplete (runFrames startTime readings st))"
  using assms
proof (induction readings arbitrary: st)
  case Nil
  then show ?case by simp
next
  case (Cons now later)
  show ?case
  proof (cases "now - startTime < duration")
    case True
    then have p: "progressAt startTime now < 1" by (simp add: progress_lt_1)
    let ?st = "animate startTime now st"
    have a: "animationRef ?st" "effects ?st = effects st @ [Render (progressAt startTime now), RequestFrame]"
      using p by (simp_all add: animate_def Let_def)
    from Cons.IH [OF a(1)] a(2) True Cons.prems show ?thesis
      by (simp add: renders_append completions_def requests_def)
  next
    case False
    then have p: "\<not> progressAt startTime now < 1" by (simp add: progress_lt_1)
    let ?st = "animate startTime now st"
    have a: "\<not> animationRef ?st" "effects ?st = effects st @ [Render (progressAt startTime now), Complete]"
      "\<not> isAnimating ?st" "isComplete ?st"
      using p by (simp_all add: animate_def Let_def)
    have b: "runFrames startTime later ?st = ?st" using a(1) by (cases later) simp_all
    from a b False Cons.prems show ?thesis
      by (auto simp: renders_append completions_def requests_def)
  qed
qed

lemma ticksOfRun_complete:
  "(\<exists>now \<in> set readings. duration \<le> now - startTime) \<longrightarrow>
      ticksOfRun startTime readings \<noteq> [] \<and>
      duration \<le> last (ticksOfRun startTime readings) - startTime \<and>
      (\<forall>now \<in> set (butlast (ticksOfRun startTime readings)). now - startTime < duration) \<and>
      Suc (length (filter (\<lambda>now. now - startTime < duration) (ticksOfRun startTime readings))) =
        length (ticksOfRun startTime readings)"
  by (induction readings) auto

text \<open>
  C6. A run of the animation clock started at \<open>startTime\<close>, with the clock readings of its
  frame callbacks: the progress values handed to the renderer are
  \<open>min (elapsed / duration) 1\<close> for the readings up to and including the first one with
  \<open>elapsed \<ge> duration\<close>, none exceeds 1, and a reading with \<open>elapsed \<ge> duration\<close> gives 1.
  If some reading has \<open>elapsed \<ge> duration\<close>, the completing state update happens exactly
  once, it clears \<open>isAnimating\<close> and sets \<open>isComplete\<close>, every frame requested was for a
  reading before that one, no frame request is left pending and later readings are not
  consumed; otherwise it does not happen.
\<close>

theorem C6_animation_clock:
  "renders (effects (animatePacket startTime readings st)) =
     renders (effects st) @
     map (\<lambda>now. min (real_of_int (now - startTime) / real_of_int duration) 1) (ticksOfRun startTime readings)
   \<and> (\<forall>now \<in> set readings. min (real_of_int (now - startTime) / real_of_int duration) 1 \<le> 1
         \<and> (duration \<le> now - startTime \<longrightarrow> min (real_of_int (now - startTime) / real_of_int duration) 1 = 1))
   \<and> ((\<exists>now \<in> set readings. duration \<le> now - startTime) \<longrightarrow>
         completions (effects (animatePacket startTime readings st)) = completions (effects st) + 1
       \<and> \<not> isAnimating (animatePacket startTime readings st)
       \<and> isComplete (animatePacket startTime readings st)
       \<and> \<not> animationRef (animatePacket startTime readings st)
       \<and> requests (effects (animatePacket startTime readings st)) =
           requests (effects st) + length (ticksOfRun startTime readings)
       \<and> duration \<le> last (ticksOfRun startTime readings) - startTime
       \<and> (\<forall>now \<in> set (butlast (ticksOfRun startTime readings)). now - startTime < duration))
   \<and> (\<not> (\<exists>now \<in> set readings. duration \<le> now - startTime) \<longrightarrow>
         completions (effects (animatePacket startTime readings st)) = completions (effects st)
       \<and> animationRef (animatePacket startTime readings st))"
proof -
  let ?st = "st\<lparr>animationRef := True, effects := effects st @ [RequestFrame]\<rparr>"
  have pending: "animationRef ?st" by simp
  note run = runFrames_effects [OF pending, of startTime readings]
  have eff: "renders (effects ?st) = renders (effects st)"
    "completions (effects ?st) = completions (effects st)"
    "requests (effects ?st) = requests (effects st) + 1"
    by (simp_all add: renders_append completions_def requests_def)
  note ticks = ticksOfRun_complete [of readings startTime, rule_format]
  have clamp: "min (real_of_int (now - startTime) / real_of_int duration) 1 = 1"
    if "duration \<le> now - startTime" for now
  proof -
    from that have "\<not> progressAt startTime now < 1" by (simp add: progress_lt_1)
    moreover have "progressAt startTime now \<le> 1" by (simp add: progressAt_def)
    ultimately have "progressAt startTime now = 1" by linarith
    then show ?thesis by (simp add: progressAt_def)
  qed
  have 1: "renders (effects (animatePacket startTime readings st)) =
     renders (effects st) @
     map (\<lambda>now. min (real_of_int (now - startTime) / real_of_int duration) 1) (ticksOfRun startTime readings)"
    using run eff(1) by (simp add: animatePacket_def progressAt_def [abs_def])
  have 2: "\<forall>now \<in> set readings. min (real_of_int (now - startTime) / real_of_int duration) 1 \<le> 1
         \<and> (duration \<le> now - startTime \<longrightarrow> min (real_of_int (now - startTime) / real_of_int duration) 1 = 1)"
    using clamp by simp
  have 3: "(\<exists>now \<in> set readings. duration \<le> now - startTime) \<longrightarrow>
         completions (effects (animatePacket startTime readings st)) = completions (effects st) + 1
       \<and> \<not> isAnimating (animatePacket startTime readings st)
       \<and> isComplete (animatePacket startTime readings st)
       \<and> \<not> animationRef (animatePacket startTime readings st)
       \<and> requests (effects (animatePacket startTime readings st)) =
           requests (effects st) + length (ticksOfRun startTime readings)
       \<and> duration \<le> last (ticksOfRun startTime readings) - startTime
       \<and> (\<forall>now \<in> set (butlast (ticksOfRun startTime readings)). now - startTime < duration)"
  proof
    assume ex: "\<exists>now \<in> set readings. duration \<le> now - startTime"
    from ticks [OF ex] run eff ex show "completions (effects (animatePacket startTime readings st)) = completions (effects st) + 1
       \<and> \<not> isAnimating (animatePacket startTime readings st)
       \<and> isComplete (animatePacket startTime readings st)
       \<and> \<not> animationRef (animatePacket startTime readings st)
       \<and> requests (effects (animatePacket startTime readings st)) =
           requests (effects st) + length (ticksOfRun startTime readings)
       \<and> duration \<le> last (ticksOfRun startTime readings) - startTime
       \<and> (\<forall>now \<in> set (butlast (ticksOfRun startTime readings)). now - startTime < duration)"
      by (simp add: animatePacket_def)
  qed
  have 4: "\<not> (\<exists>now \<in> set readings. duration \<le> now - startTime) \<longrightarrow>
         completions (effects (animatePacket startTime readings st)) = completions (effects st)
       \<and> animationRef (animatePacket startTime readings st)"
    using run eff by (simp add: animatePacket_def)
  from 1 2 3 4 show ?thesis by blast
qed

definition idleState :: AnimationState where
  "idleState = \<lparr>animationRef = False, isAnimating = True, isComplete = False, effects = []\<rparr>"

theorem C6_witness:
  "(\<exists>now \<in> set [1016, 2250, 3500, 3516]. duration \<le> now - 1000)
   \<and> renders (effects (animatePacket 1000 [1016, 2250, 3500, 3516] idleState)) = [4 / 625, 1 / 2, 1]
   \<and> completions (effects (animatePacket 1000 [1016, 2250, 3500, 3516] idleState)) = 1
   \<and> \<not> isAnimating (animatePacket 1000 [1016, 2250, 3500, 3516] idleState)
   \<and> isComplete (animatePacket 1000 [1016, 2250, 3500, 3516] idleState)
   \<and> \<not> animationRef (animatePacket 1000 [1016, 2250, 3500, 3516] idleState)
   \<and> requests (effects (animatePacket 1000 [1016, 2250, 3500, 3516] idleState)) = 3"
proof -
  have h: "\<exists>now \<in> set [1016, 2250, 3500, 3516]. duration \<le> now - 1000"
    by (simp add: duration_def)
  have t: "ticksOfRun 1000 [1016, 2250, 3500, 3516] = [1016, 2250, 3500]"
    by (simp add: duration_def)
  have e: "renders (effects idleState) = []" "completions (effects idleState) = 0"
    "requests (effects idleState) = 0"
    by (simp_all add: idleState_def completions_def requests_def)
  from C6_animation_clock [of 1000 "[1016, 2250, 3500, 3516]" idleState] h
  show ?thesis unfolding t e by (simp add: duration_def)
qed






end
